theory Spec2Isabelle
  imports Main "HOL-Library.Multiset"
begin

section \<open>Python strings\<close>

text \<open>
  A Python \<open>str\<close> is modelled as a \<open>string\<close>: a list of code points below 256 (the
  Latin-1 range), so that \<open>length\<close> is Python's \<open>len\<close>. On this range the methods used by
  the crawler are as follows.

  \<^item> \<open>str.strip()\<close> removes leading and trailing white space; the white-space code points
    below 256 are 9 to 13, 28 to 32, 133 and 160.
  \<^item> \<open>str.lower()\<close> maps \<open>A\<close> to \<open>Z\<close> and the code points 192 to 222 other than 215 to the
    code point 32 above, and leaves the rest alone.
  \<^item> \<open>s.endswith(t)\<close> with a tuple \<open>t\<close> holds when \<open>s\<close> ends with one of its members.
  \<^item> \<open>s.split("#")[0]\<close> is \<open>s\<close> up to its first \<open>#\<close>, and \<open>s.rstrip("/")\<close> is \<open>s\<close> without
    its trailing slashes (all of them).
\<close>

definition isspace :: "char \<Rightarrow> bool" where
  "isspace c =
     (let n = (of_char c :: nat)
      in (9 \<le> n \<and> n \<le> 13) \<or> (28 \<le> n \<and> n \<le> 32) \<or> n = 133 \<or> n = 160)"

definition strip :: "string \<Rightarrow> string" where
  "strip s = rev (dropWhile isspace (rev (dropWhile isspace s)))"

definition lower_char :: "char \<Rightarrow> char" where
  "lower_char c =
     (let n = (of_char c :: nat)
      in if (65 \<le> n \<and> n \<le> 90) \<or> (192 \<le> n \<and> n \<le> 222 \<and> n \<noteq> 215)
         then char_of (n + 32) else c)"

definition lower :: "string \<Rightarrow> string" where
  "lower s = map lower_char s"

definition endswith :: "string \<Rightarrow> string \<Rightarrow> bool" where
  "endswith s suf = (length suf \<le> length s \<and> drop (length s - length suf) s = suf)"

definition endswith_any :: "string \<Rightarrow> string list \<Rightarrow> bool" where
  "endswith_any s sufs = list_ex (endswith s) sufs"

definition before_hash :: "string \<Rightarrow> string" where
  "before_hash s = takeWhile (\<lambda>c. c \<noteq> CHR ''#'') s"

definition rstrip_slash :: "string \<Rightarrow> string" where
  "rstrip_slash s = rev (dropWhile (\<lambda>c. c = CHR ''/'') (rev s))"

section \<open>The extension denylist\<close>

text \<open>
  \<^verbatim>\<open>
  def is_valid_url(self, url):
      irrelevant_exts = (".jpg", ".jpeg", ".png", ".gif", ".css", ".js", ".ico",
                         ".svg", ".woff", ".ttf", ".otf", ".eot", ".pdf", ".zip", ".txt",
                         ".xml", ".mp4", ".webm", ".avi", ".mp3", ".json")
      return not url.lower().endswith(irrelevant_exts)
  \<close>
\<close>

definition irrelevant_exts :: "string list" where
  "irrelevant_exts =
     [''.jpg'', ''.jpeg'', ''.png'', ''.gif'', ''.css'', ''.js'', ''.ico'',
      ''.svg'', ''.woff'', ''.ttf'', ''.otf'', ''.eot'', ''.pdf'', ''.zip'', ''.txt'',
      ''.xml'', ''.mp4'', ''.webm'', ''.avi'', ''.mp3'', ''.json'']"

definition is_valid_url :: "string \<Rightarrow> bool" where
  "is_valid_url url = (\<not> endswith_any (lower url) irrelevant_exts)"

section \<open>The world outside the program\<close>

text \<open>
  The crawler calls library code and the network. Their answers are the fields of an
  environment, one field for each call; where the call may raise, the answer is an option
  and \<open>None\<close> stands for the exception.

  \<^item> \<open>urlparse env u\<close>: \<open>urllib.parse.urlparse(u)\<close>, of which the program reads \<open>netloc\<close>
    (and the specification speaks of \<open>path\<close>); \<open>None\<close> is its \<open>ValueError\<close>.
  \<^item> \<open>urljoin env b u\<close>: \<open>urllib.parse.urljoin(b, u)\<close>; \<open>None\<close> is its \<open>ValueError\<close>.
  \<^item> \<open>http_get env u\<close>: the response of \<open>session.get(u, ...)\<close>, with its status and the
    result of \<open>response.text()\<close>; \<open>None\<close> is any exception of the request (transport
    error, timeout, invalid URL), and \<open>resp_text = None\<close> any exception of \<open>text()\<close>.
  \<^item> \<open>find_hrefs env html\<close>: the \<open>href\<close> values of
    \<open>BeautifulSoup(html, "html.parser").find_all("a", href=True)\<close>, in document order;
    \<open>None\<close> is an exception of the parser.
  \<^item> \<open>robots_read env u\<close>: \<open>RobotFileParser.read()\<close> for the robots URL \<open>u\<close> returns
    without an exception.
  \<^item> \<open>robots_can_fetch env u\<close>: \<open>robot_parser.can_fetch("*", u)\<close>; \<open>None\<close> is an exception.
  \<^item> \<open>sitemap_locs env t\<close>: the \<open>text\<close> attributes of the \<open>loc\<close> elements that
    \<open>ET.fromstring(t).findall(...)\<close> returns (\<open>None\<close> for an element without text); the
    outer \<open>None\<close> is the parse error.
  \<^item> \<open>set_iter env\<close> and \<open>next_done env\<close> resolve what Python leaves open: the order in
    which a \<open>set\<close> is iterated, and which of the units in flight completes next.

  Each field is a function: within one crawl the same question gets the same answer. The
  theorems hold for every environment, so for every site, every failure of the network
  and every schedule.
\<close>

datatype ParseResult = ParseResult (netloc: string) (path: string)

datatype response = Response (resp_status: int) (resp_text: "string option")

record env =
  urlparse :: "string \<Rightarrow> ParseResult option"
  urljoin :: "string \<Rightarrow> string \<Rightarrow> string option"
  http_get :: "string \<Rightarrow> response option"
  find_hrefs :: "string \<Rightarrow> string list option"
  robots_read :: "string \<Rightarrow> bool"
  robots_can_fetch :: "string \<Rightarrow> bool option"
  sitemap_locs :: "string \<Rightarrow> string option list option"
  set_iter :: "string list \<Rightarrow> nat"
  next_done :: "(string \<times> int) list \<Rightarrow> nat"

text \<open>
  An order chosen step by step: \<open>pick\<close> names, among the elements left, the one that comes
  next (its index, taken modulo the number left). Every \<open>pick\<close> gives a permutation, and
  every permutation is given by some \<open>pick\<close>.
\<close>

function permute :: "('a list \<Rightarrow> nat) \<Rightarrow> 'a list \<Rightarrow> 'a list" where
  "permute pick xs =
     (if xs = [] then []
      else let i = pick xs mod length xs
           in xs ! i # permute pick (take i xs @ drop (Suc i) xs))"
  by pat_completeness auto
termination
proof (relation "measure (\<lambda>(pick, xs). length xs)")
  fix pick :: "'a list \<Rightarrow> nat" and xs :: "'a list" and i
  assume "xs \<noteq> []" and i: "i = pick xs mod length xs"
  then have "i < length xs" by simp
  then show "((pick, take i xs @ drop (Suc i) xs), (pick, xs))
               \<in> measure (\<lambda>(pick, xs). length xs)"
    by simp
qed simp

declare permute.simps [simp del]

section \<open>The crawler\<close>

text \<open>
  The fields of \<open>SmartBFSAsyncCrawler\<close> that the crawl reads and writes. The queue is a
  list, oldest entry first; the semaphore holds \<open>max_tasks\<close> permits and a round starts at
  most \<open>max_tasks\<close> units, so it never blocks and has no field here.
\<close>

record crawler =
  base_url :: string
  base_domain :: string
  max_tasks :: int
  max_depth :: int
  urls_to_visit :: "(string \<times> int) list"
  visited_urls :: "string set"
  result_urls :: "string list"
  robots_loaded :: bool
  sitemap_loaded :: bool

datatype error = ValueError | ParserRejectedMarkup

text \<open>
  \<^verbatim>\<open>
  def __init__(self, base_url, max_tasks=500, max_depth=3):
      self.base_url = base_url if base_url.endswith("/") else base_url + "/"
      self.parsed_base = urlparse(self.base_url)
      self.base_domain = self.parsed_base.netloc
      ...
      self.sem = asyncio.Semaphore(max_tasks)
  \<close>
  \<open>urlparse\<close> may raise \<open>ValueError\<close>, and so does \<open>asyncio.Semaphore\<close> on a negative
  value. Nothing else is checked.
\<close>

definition with_slash :: "string \<Rightarrow> string" where
  "with_slash url = (if endswith url ''/'' then url else url @ ''/'')"

definition init :: "env \<Rightarrow> string \<Rightarrow> int \<Rightarrow> int \<Rightarrow> error + crawler" where
  "init env url mt md =
     (case urlparse env (with_slash url) of
        None \<Rightarrow> Inl ValueError
      | Some parsed_base \<Rightarrow>
          if mt < 0 then Inl ValueError
          else Inr \<lparr>base_url = with_slash url, base_domain = netloc parsed_base,
                    max_tasks = mt, max_depth = md, urls_to_visit = [],
                    visited_urls = {}, result_urls = [],
                    robots_loaded = False, sitemap_loaded = False\<rparr>)"

text \<open>
  \<^verbatim>\<open>
  def is_internal(self, url):
      parsed = urlparse(url)
      return parsed.netloc == "" or parsed.netloc == self.base_domain
  \<close>
\<close>

definition is_internal :: "env \<Rightarrow> crawler \<Rightarrow> string \<Rightarrow> error + bool" where
  "is_internal env s url =
     (case urlparse env url of
        None \<Rightarrow> Inl ValueError
      | Some parsed \<Rightarrow> Inr (netloc parsed = [] \<or> netloc parsed = base_domain s))"

text \<open>
  \<^verbatim>\<open>
  def can_fetch(self, url):
      if not self.robots_loaded:
          return True
      try:
          return self.robot_parser.can_fetch("*", url)
      except:
          return True
  \<close>
\<close>

definition can_fetch :: "env \<Rightarrow> crawler \<Rightarrow> string \<Rightarrow> bool" where
  "can_fetch env s url =
     (if \<not> robots_loaded s then True
      else case robots_can_fetch env url of None \<Rightarrow> True | Some allowed \<Rightarrow> allowed)"

text \<open>
  \<^verbatim>\<open>
  async def fetch(self, url):
      try:
          async with self.sem:
              async with self.session.get(url, timeout=10, allow_redirects=True) as response:
                  if response.status == 200:
                      html = await response.text()
                      if html and len(html.strip()) > 100:
                          return html
      except Exception as e:
          logging.warning(...)
      return None
  \<close>
  \<open>fetch_try\<close> is the body of the \<open>try\<close>: it raises (\<open>Inl\<close>), returns the page, or falls
  through (\<open>Inr None\<close>). \<open>fetch\<close> adds the handler and the final \<open>return None\<close>.
\<close>

definition fetch_try :: "env \<Rightarrow> string \<Rightarrow> unit + string option" where
  "fetch_try env url =
     (case http_get env url of
        None \<Rightarrow> Inl ()
      | Some response \<Rightarrow>
          if resp_status response = 200
          then (case resp_text response of
                  None \<Rightarrow> Inl ()
                | Some html \<Rightarrow>
                    if html \<noteq> [] \<and> length (strip html) > 100 then Inr (Some html)
                    else Inr None)
          else Inr None)"

definition fetch :: "env \<Rightarrow> string \<Rightarrow> string option" where
  "fetch env url =
     (case fetch_try env url of
        Inl _ \<Rightarrow> None
      | Inr None \<Rightarrow> None
      | Inr (Some html) \<Rightarrow> Some html)"

text \<open>
  A Python \<open>set\<close> of strings that the program builds and then iterates is a list without
  repetitions; \<open>set_add\<close> is \<open>set.add\<close>.
\<close>

definition set_add :: "string \<Rightarrow> string list \<Rightarrow> string list" where
  "set_add x xs = (if x \<in> set xs then xs else xs @ [x])"

text \<open>
  \<^verbatim>\<open>
  async def parse_links(self, html, base_url):
      soup = BeautifulSoup(html, "html.parser")
      links = set()
      for tag in soup.find_all("a", href=True):
          href = tag.get("href").strip()
          full_url = urljoin(base_url, href).split("#")[0].rstrip("/")
          if self.is_internal(full_url) and self.is_valid_url(full_url) and self.can_fetch(full_url):
              links.add(full_url)
      return links
  \<close>
  Nothing here catches an exception: one raised by \<open>urljoin\<close> or by \<open>urlparse\<close> (in
  \<open>is_internal\<close>) leaves the function.
\<close>

fun parse_links_loop ::
  "env \<Rightarrow> crawler \<Rightarrow> string \<Rightarrow> string list \<Rightarrow> string list \<Rightarrow> error + string list" where
  "parse_links_loop env s page_url [] links = Inr links"
| "parse_links_loop env s page_url (tag_href # tags) links =
     (case urljoin env page_url (strip tag_href) of
        None \<Rightarrow> Inl ValueError
      | Some joined \<Rightarrow>
          let full_url = rstrip_slash (before_hash joined)
          in (case is_internal env s full_url of
                Inl e \<Rightarrow> Inl e
              | Inr internal \<Rightarrow>
                  if internal \<and> is_valid_url full_url \<and> can_fetch env s full_url
                  then parse_links_loop env s page_url tags (set_add full_url links)
                  else parse_links_loop env s page_url tags links))"

definition parse_links :: "env \<Rightarrow> crawler \<Rightarrow> string \<Rightarrow> string \<Rightarrow> error + string list" where
  "parse_links env s html page_url =
     (case find_hrefs env html of
        None \<Rightarrow> Inl ParserRejectedMarkup
      | Some hrefs \<Rightarrow> parse_links_loop env s page_url hrefs [])"

text \<open>
  \<^verbatim>\<open>
  async def parse_sitemap(self, sitemap_url):
      urls = set()
      try:
          async with self.session.get(sitemap_url, timeout=10) as response:
              if response.status == 200:
                  text = await response.text()
                  root = ET.fromstring(text)
                  for loc in root.findall(".//{http://www.sitemaps.org/schemas/sitemap/0.9}loc"):
                      url = loc.text.strip()
                      if self.is_internal(url) and self.is_valid_url(url):
                          urls.add(url)
                  self.sitemap_loaded = True
      except Exception as e:
          logging.warning(...)
      return urls
  \<close>
  An exception inside the loop (\<open>loc.text\<close> is \<open>None\<close>, or \<open>urlparse\<close> raises) is caught:
  the URLs added so far stay in \<open>urls\<close> and are returned, and \<open>sitemap_loaded\<close> is not
  set. \<open>sitemap_loop\<close> returns whether the loop ran to its end, and \<open>urls\<close>.
\<close>

fun sitemap_loop ::
  "env \<Rightarrow> crawler \<Rightarrow> string option list \<Rightarrow> string list \<Rightarrow> bool \<times> string list" where
  "sitemap_loop env s [] urls = (True, urls)"
| "sitemap_loop env s (loc_text # locs) urls =
     (case loc_text of
        None \<Rightarrow> (False, urls)
      | Some t \<Rightarrow>
          let url = strip t
          in (case is_internal env s url of
                Inl e \<Rightarrow> (False, urls)
              | Inr internal \<Rightarrow>
                  if internal \<and> is_valid_url url
                  then sitemap_loop env s locs (set_add url urls)
                  else sitemap_loop env s locs urls))"

definition parse_sitemap :: "env \<Rightarrow> crawler \<Rightarrow> string \<Rightarrow> string list \<times> crawler" where
  "parse_sitemap env s sitemap_url =
     (case http_get env sitemap_url of
        None \<Rightarrow> ([], s)
      | Some response \<Rightarrow>
          if resp_status response = 200
          then (case resp_text response of
                  None \<Rightarrow> ([], s)
                | Some t \<Rightarrow>
                    (case sitemap_locs env t of
                       None \<Rightarrow> ([], s)
                     | Some locs \<Rightarrow>
                         (case sitemap_loop env s locs [] of
                            (True, urls) \<Rightarrow> (urls, s\<lparr>sitemap_loaded := True\<rparr>)
                          | (False, urls) \<Rightarrow> (urls, s))))
          else ([], s))"

text \<open>
  The start of \<open>crawl\<close>, up to the \<open>while\<close> loop:
  \<^verbatim>\<open>
  try:
      robots_url = urljoin(self.base_url, "/robots.txt")
      self.robot_parser.set_url(robots_url)
      self.robot_parser.read()
      self.robots_loaded = True
  except Exception as e:
      logging.warning(...)

  sitemap_url = urljoin(self.base_url, "/sitemap.xml")
  sitemap_urls = await self.parse_sitemap(sitemap_url)

  if self.sitemap_loaded and sitemap_urls:
      for url in sitemap_urls:
          await self.urls_to_visit.put((url, 0))
  else:
      await self.urls_to_visit.put((self.base_url, 0))
  \<close>
  The second \<open>urljoin\<close> is outside every \<open>try\<close>.
\<close>

definition load_robots :: "env \<Rightarrow> crawler \<Rightarrow> crawler" where
  "load_robots env s =
     (case urljoin env (base_url s) ''/robots.txt'' of
        None \<Rightarrow> s
      | Some robots_url \<Rightarrow>
          if robots_read env robots_url then s\<lparr>robots_loaded := True\<rparr> else s)"

definition put_all :: "(string \<times> int) list \<Rightarrow> crawler \<Rightarrow> crawler" where
  "put_all entries s = s\<lparr>urls_to_visit := urls_to_visit s @ entries\<rparr>"

definition seed :: "env \<Rightarrow> crawler \<Rightarrow> error + crawler" where
  "seed env s0 =
     (let s1 = load_robots env s0
      in case urljoin env (base_url s1) ''/sitemap.xml'' of
           None \<Rightarrow> Inl ValueError
         | Some sitemap_url \<Rightarrow>
             (case parse_sitemap env s1 sitemap_url of
                (sitemap_urls, s2) \<Rightarrow>
                  if sitemap_loaded s2 \<and> sitemap_urls \<noteq> []
                  then Inr (put_all (map (\<lambda>url. (url, 0))
                                       (permute (set_iter env) sitemap_urls)) s2)
                  else Inr (put_all [(base_url s2, 0)] s2)))"

text \<open>
  \<^verbatim>\<open>
  async def handle_url(self, url, depth):
      self.visited_urls.add(url)
      html = await self.fetch(url)
      if html:
          self.result_urls.append(url)
          if depth < self.max_depth:
              links = await self.parse_links(html, url)
              for link in links:
                  if link not in self.visited_urls:
                      await self.urls_to_visit.put((link, depth + 1))
  \<close>
  The unit runs in two steps. It is created by \<open>asyncio.create_task\<close> and starts when
  \<open>crawl\<close> waits in \<open>asyncio.gather\<close>: \<open>handle_url_begin\<close> runs up to the network request
  of \<open>fetch\<close>, where it is suspended. When the request is over it goes on,
  \<open>handle_url_resume\<close>, and runs to its end without another suspension: \<open>parse_links\<close>
  awaits nothing and \<open>put\<close> on an unbounded queue does not wait. An exception of
  \<open>parse_links\<close> ends the unit; it is returned with the state it leaves.
  The \<open>for\<close> loop over \<open>links\<close> changes only the queue, so the entries it puts are the
  links outside the visited set, in the order of the iteration.
\<close>

definition handle_url_begin :: "crawler \<Rightarrow> string \<times> int \<Rightarrow> crawler" where
  "handle_url_begin s task =
     (case task of (url, depth) \<Rightarrow> s\<lparr>visited_urls := insert url (visited_urls s)\<rparr>)"

definition handle_url_resume ::
  "env \<Rightarrow> crawler \<Rightarrow> string \<times> int \<Rightarrow> (error \<times> crawler) + crawler" where
  "handle_url_resume env s task =
     (case task of (url, depth) \<Rightarrow>
        (case fetch env url of
           None \<Rightarrow> Inr s
         | Some html \<Rightarrow>
             if html \<noteq> [] then
               (let s1 = s\<lparr>result_urls := result_urls s @ [url]\<rparr>
                in if depth < max_depth s1 then
                     (case parse_links env s1 html url of
                        Inl e \<Rightarrow> Inl (e, s1)
                      | Inr links \<Rightarrow>
                          Inr (put_all
                                 (map (\<lambda>link. (link, depth + 1))
                                    (filter (\<lambda>link. link \<notin> visited_urls s1)
                                       (permute (set_iter env) links))) s1))
                   else Inr s1)
             else Inr s))"

text \<open>
  \<open>asyncio.gather(*tasks)\<close>: the units start in the order of their creation, each adding
  its URL to the visited set, and all of them are in flight before the first response
  arrives (the event loop runs every unit that is ready, up to its first suspension,
  before it looks at the network again; a request that raises at once gives no page, and
  its unit does nothing more). Then the units complete one at a time, in the order
  \<open>next_done\<close> gives. The first exception of a unit is raised in \<open>crawl\<close>, which has no
  handler: the crawl is over, and the units still in flight are not followed further.
\<close>

fun run_tasks ::
  "env \<Rightarrow> crawler \<Rightarrow> (string \<times> int) list \<Rightarrow> (error \<times> crawler) + crawler" where
  "run_tasks env s [] = Inr s"
| "run_tasks env s (task # tasks) =
     (case handle_url_resume env s task of
        Inl e \<Rightarrow> Inl e
      | Inr s' \<Rightarrow> run_tasks env s' tasks)"

definition gather :: "env \<Rightarrow> crawler \<Rightarrow> (string \<times> int) list \<Rightarrow> (error \<times> crawler) + crawler" where
  "gather env s tasks =
     run_tasks env (foldl handle_url_begin s tasks) (permute (next_done env) tasks)"

text \<open>
  One pass of the loop of \<open>crawl\<close>:
  \<^verbatim>\<open>
  while not self.urls_to_visit.empty():
      tasks = []
      for _ in range(min(self.max_tasks, self.urls_to_visit.qsize())):
          url, depth = await self.urls_to_visit.get()
          if url not in self.visited_urls and depth <= self.max_depth:
              tasks.append(asyncio.create_task(self.handle_url(url, depth)))
      if tasks:
          await asyncio.gather(*tasks)
  \<close>
  \<open>get\<close> on a queue that is not empty does not wait, so no unit runs during the \<open>for\<close>
  loop and the visited set is the same at each of its tests. \<open>batch_size\<close> is the number of
  entries taken, \<open>create_tasks\<close> the units created for them.
\<close>

definition batch_size :: "crawler \<Rightarrow> nat" where
  "batch_size s = nat (min (max_tasks s) (int (length (urls_to_visit s))))"

definition create_tasks :: "crawler \<Rightarrow> (string \<times> int) list" where
  "create_tasks s =
     filter (\<lambda>(url, depth). url \<notin> visited_urls s \<and> depth \<le> max_depth s)
       (take (batch_size s) (urls_to_visit s))"

definition dequeue_batch :: "crawler \<Rightarrow> crawler" where
  "dequeue_batch s = s\<lparr>urls_to_visit := drop (batch_size s) (urls_to_visit s)\<rparr>"

definition crawl_round :: "env \<Rightarrow> crawler \<Rightarrow> (error \<times> crawler) + crawler" where
  "crawl_round env s =
     (let tasks = create_tasks s; s1 = dequeue_batch s
      in if tasks \<noteq> [] then gather env s1 tasks else Inr s1)"

text \<open>
  The loop, with fuel: \<open>None\<close> when the fuel does not suffice. \<open>Some (Inr s)\<close> is the
  normal end in state \<open>s\<close>, \<open>Some (Inl (e, s))\<close> the exception \<open>e\<close> leaving \<open>crawl\<close>.
\<close>

fun crawl_loop :: "env \<Rightarrow> nat \<Rightarrow> crawler \<Rightarrow> ((error \<times> crawler) + crawler) option" where
  "crawl_loop env 0 s = (if urls_to_visit s = [] then Some (Inr s) else None)"
| "crawl_loop env (Suc fuel) s =
     (if urls_to_visit s = [] then Some (Inr s)
      else case crawl_round env s of
             Inl e \<Rightarrow> Some (Inl e)
           | Inr s' \<Rightarrow> crawl_loop env fuel s')"

definition crawl :: "env \<Rightarrow> nat \<Rightarrow> crawler \<Rightarrow> ((error \<times> crawler) + crawler) option" where
  "crawl env fuel s =
     (case seed env s of
        Inl e \<Rightarrow> Some (Inl (e, s))
      | Inr s0 \<Rightarrow> crawl_loop env fuel s0)"

text \<open>
  \<open>SmartBFSAsyncCrawler(base_url=url, max_tasks=mt, max_depth=md).run()\<close>: the result
  list, or the exception that leaves the constructor or \<open>run\<close>.
\<close>

definition run :: "env \<Rightarrow> nat \<Rightarrow> string \<Rightarrow> int \<Rightarrow> int \<Rightarrow> (error + string list) option" where
  "run env fuel url mt md =
     (case init env url mt md of
        Inl e \<Rightarrow> Some (Inl e)
      | Inr s \<Rightarrow>
          (case crawl env fuel s of
             None \<Rightarrow> None
           | Some (Inl (e, _)) \<Rightarrow> Some (Inl e)
           | Some (Inr s') \<Rightarrow> Some (Inr (result_urls s'))))"

text \<open>
  The state after \<open>k\<close> passes of the loop, each of them begun with a queue that is not
  empty and ended without an exception: the states at the round boundaries of a crawl.
\<close>

fun rounds :: "env \<Rightarrow> nat \<Rightarrow> crawler \<Rightarrow> crawler option" where
  "rounds env 0 s = Some s"
| "rounds env (Suc k) s =
     (if urls_to_visit s = [] then None
      else case crawl_round env s of
             Inl e \<Rightarrow> None
           | Inr s' \<Rightarrow> rounds env k s')"

text \<open>The state in which \<open>crawl\<close> ends, normally or by an exception.\<close>

definition final_state :: "(error \<times> crawler) + crawler \<Rightarrow> crawler" where
  "final_state r = (case r of Inl (e, s) \<Rightarrow> s | Inr s \<Rightarrow> s)"

section \<open>Example sites\<close>

text \<open>
  Small sites on which the definitions are run. Each table lists the answers of the
  library and of the network at the strings the crawl of that site meets; a string that is
  not listed gets \<open>None\<close>, the exception.

  \<open>site_a\<close>: the home page links to \<open>/a\<close> and \<open>/b\<close>, the page \<open>/a\<close> to \<open>/b\<close> and \<open>/c\<close>;
  there is no sitemap (status 404) and \<open>robots.txt\<close> allows everything.
\<close>

definition filler :: string where
  "filler = replicate 101 CHR ''.''"

definition home_html :: string where
  \<open>home_html = ''<a href="/a">a</a><a href="/b">b</a>'' @ filler\<close>

definition a_html :: string where
  \<open>a_html = ''<a href="/b">b</a><a href="/c">c</a>'' @ filler\<close>

definition b_html :: string where
  "b_html = ''<p>b</p>'' @ filler"

definition c_html :: string where
  "c_html = ''<p>c</p>'' @ filler"

definition site_a :: env where
  "site_a = \<lparr>
     urlparse = map_of
       [(''https://example.test/'', ParseResult ''example.test'' ''/''),
        (''https://example.test/a'', ParseResult ''example.test'' ''/a''),
        (''https://example.test/b'', ParseResult ''example.test'' ''/b''),
        (''https://example.test/c'', ParseResult ''example.test'' ''/c'')],
     urljoin = (\<lambda>b u. map_of
       [((''https://example.test/'', ''/robots.txt''), ''https://example.test/robots.txt''),
        ((''https://example.test/'', ''/sitemap.xml''), ''https://example.test/sitemap.xml''),
        ((''https://example.test/'', ''/a''), ''https://example.test/a''),
        ((''https://example.test/'', ''/b''), ''https://example.test/b''),
        ((''https://example.test/a'', ''/b''), ''https://example.test/b''),
        ((''https://example.test/a'', ''/c''), ''https://example.test/c'')] (b, u)),
     http_get = map_of
       [(''https://example.test/sitemap.xml'', Response 404 (Some [])),
        (''https://example.test/'', Response 200 (Some home_html)),
        (''https://example.test/a'', Response 200 (Some a_html)),
        (''https://example.test/b'', Response 200 (Some b_html)),
        (''https://example.test/c'', Response 200 (Some c_html))],
     find_hrefs = map_of
       [(home_html, [''/a'', ''/b'']), (a_html, [''/b'', ''/c'']),
        (b_html, []), (c_html, [])],
     robots_read = (\<lambda>_. True),
     robots_can_fetch = (\<lambda>_. Some True),
     sitemap_locs = (\<lambda>_. None),
     set_iter = (\<lambda>_. 0),
     next_done = (\<lambda>_. 0)\<rparr>"

text \<open>
  The crawler that the constructor returns for the URL \<open>https://example.test\<close> on these
  sites.
\<close>

definition example_crawler :: "int \<Rightarrow> int \<Rightarrow> crawler" where
  "example_crawler mt md =
     \<lparr>base_url = ''https://example.test/'', base_domain = ''example.test'',
      max_tasks = mt, max_depth = md, urls_to_visit = [],
      visited_urls = {}, result_urls = [],
      robots_loaded = False, sitemap_loaded = False\<rparr>"

text \<open>
  The states of the crawl of \<open>site_a\<close> with \<open>max_tasks = 1\<close> and \<open>max_depth = 2\<close>:
  \<open>robots.txt\<close> is loaded, every URL visited so far was fetched, and the queue varies.
\<close>

definition site_a_state :: "(string \<times> int) list \<Rightarrow> string list \<Rightarrow> crawler" where
  "site_a_state queue fetched =
     \<lparr>base_url = ''https://example.test/'', base_domain = ''example.test'',
      max_tasks = 1, max_depth = 2, urls_to_visit = queue,
      visited_urls = set fetched, result_urls = fetched,
      robots_loaded = True, sitemap_loaded = False\<rparr>"

text \<open>
  \<open>site_map\<close> is \<open>site_a\<close> with a sitemap of two entries; in \<open>site_map_broken\<close> the second
  \<open>loc\<close> element of the sitemap is empty, so that its \<open>text\<close> is \<open>None\<close>.
\<close>

definition sitemap_xml :: string where
  \<open>sitemap_xml = ''<urlset xmlns="http://www.sitemaps.org/schemas/sitemap/0.9">''
     @ ''<url><loc>https://example.test/a</loc></url>''
     @ ''<url><loc>https://example.test/b</loc></url></urlset>''\<close>

definition sitemap_broken_xml :: string where
  \<open>sitemap_broken_xml = ''<urlset xmlns="http://www.sitemaps.org/schemas/sitemap/0.9">''
     @ ''<url><loc>https://example.test/a</loc></url>''
     @ ''<url><loc></loc></url></urlset>''\<close>

definition site_map :: env where
  "site_map = site_a\<lparr>
     http_get := (http_get site_a)
       (''https://example.test/sitemap.xml'' \<mapsto> Response 200 (Some sitemap_xml)),
     sitemap_locs := map_of
       [(sitemap_xml, [Some ''https://example.test/a'', Some ''https://example.test/b''])]\<rparr>"

definition site_map_broken :: env where
  "site_map_broken = site_a\<lparr>
     http_get := (http_get site_a)
       (''https://example.test/sitemap.xml'' \<mapsto> Response 200 (Some sitemap_broken_xml)),
     sitemap_locs := map_of
       [(sitemap_broken_xml, [Some ''https://example.test/a'', None])]\<rparr>"

text \<open>
  \<open>site_img\<close>: the home page has one link, to \<open>/a.jpg?x=1\<close>, whose path is \<open>/a.jpg\<close> and
  whose query is \<open>x=1\<close>.
\<close>

definition img_html :: string where
  \<open>img_html = ''<a href="/a.jpg?x=1">picture</a>'' @ filler\<close>

definition site_img :: env where
  "site_img = site_a\<lparr>
     urlparse := map_of
       [(''https://example.test/'', ParseResult ''example.test'' ''/''),
        (''https://example.test/a.jpg?x=1'', ParseResult ''example.test'' ''/a.jpg'')],
     urljoin := (\<lambda>b u. map_of
       [((''https://example.test/'', ''/robots.txt''), ''https://example.test/robots.txt''),
        ((''https://example.test/'', ''/sitemap.xml''), ''https://example.test/sitemap.xml''),
        ((''https://example.test/'', ''/a.jpg?x=1''), ''https://example.test/a.jpg?x=1'')]
       (b, u)),
     http_get := map_of [(''https://example.test/'', Response 200 (Some img_html))],
     find_hrefs := map_of [(img_html, [''/a.jpg?x=1''])]\<rparr>"

text \<open>
  \<open>site_bad_link\<close>: the home page has one link, \<open>http://[\<close>, which \<open>urljoin\<close> rejects
  with \<open>ValueError\<close> (an opening bracket without the closing one in the network
  location).
\<close>

definition bad_html :: string where
  \<open>bad_html = ''<a href="http://[">broken</a>'' @ filler\<close>

definition site_bad_link :: env where
  "site_bad_link = site_a\<lparr>
     http_get := map_of [(''https://example.test/'', Response 200 (Some bad_html))],
     find_hrefs := map_of [(bad_html, [''http://[''])]\<rparr>"

text \<open>
  \<open>offline\<close>: the crawler is given the string \<open>foo\<close>, which is no absolute URL. \<open>urlparse\<close>
  and \<open>urljoin\<close> accept it (no scheme, no network location); every request fails, and so
  does the read of \<open>robots.txt\<close>. The two library functions are total here: a string
  without \<open>//\<close> has no network location, and an absolute path joined to such a base is
  the path itself.
\<close>

definition offline :: env where
  "offline = \<lparr>
     urlparse = (\<lambda>u. Some (ParseResult [] u)),
     urljoin = (\<lambda>b u. Some u),
     http_get = (\<lambda>_. None),
     find_hrefs = (\<lambda>_. Some []),
     robots_read = (\<lambda>_. False),
     robots_can_fetch = (\<lambda>_. None),
     sitemap_locs = (\<lambda>_. None),
     set_iter = (\<lambda>_. 0),
     next_done = (\<lambda>_. 0)\<rparr>"

section \<open>Notions used in the statements\<close>

text \<open>
  \<open>extended s new res\<close> is the state \<open>s\<close> after the entries \<open>new\<close> were put in the queue and
  the URLs \<open>res\<close> appended to the result list. \<open>link_of\<close> is what \<open>parse_links\<close> requires
  of a link it returns, and \<open>enqueued_by\<close> relates a unit to an entry it may put in the
  queue.
\<close>

definition extended :: "crawler \<Rightarrow> (string \<times> int) list \<Rightarrow> string list \<Rightarrow> crawler" where
  "extended s new res =
     s\<lparr>urls_to_visit := urls_to_visit s @ new, result_urls := result_urls s @ res\<rparr>"

definition link_of :: "env \<Rightarrow> crawler \<Rightarrow> string \<Rightarrow> string list \<Rightarrow> string \<Rightarrow> bool" where
  "link_of env s page_url hrefs l \<longleftrightarrow>
     (\<exists>h\<in>set hrefs. \<exists>j. urljoin env page_url (strip h) = Some j
        \<and> l = rstrip_slash (before_hash j))
     \<and> is_internal env s l = Inr True \<and> is_valid_url l \<and> can_fetch env s l"

definition enqueued_by :: "env \<Rightarrow> crawler \<Rightarrow> string \<times> int \<Rightarrow> string \<times> int \<Rightarrow> bool" where
  "enqueued_by env s task e \<longleftrightarrow>
     snd e = snd task + 1 \<and> snd task < max_depth s
     \<and> is_internal env s (fst e) = Inr True \<and> fst e \<notin> visited_urls s"

text \<open>
  \<open>started s\<close> is the state of a round when its units are in flight: the batch is out of
  the queue and the URLs of the units are in the visited set.
\<close>

definition started :: "crawler \<Rightarrow> crawler" where
  "started s =
     (dequeue_batch s)\<lparr>visited_urls := visited_urls s \<union> fst ` set (create_tasks s)\<rparr>"

text \<open>
  The measure of the loop: for each entry of the queue, the number of levels left below
  it, as a multiset.
\<close>

definition frontier_measure :: "crawler \<Rightarrow> nat multiset" where
  "frontier_measure s =
     image_mset (\<lambda>e. nat (max_depth s + 1 - snd e)) (mset (urls_to_visit s))"

text \<open>
  \<open>library_raises env page_url html\<close>: a library call that \<open>parse_links\<close> makes for the
  page \<open>html\<close> of \<open>page_url\<close> raises. The HTML parser raises on the page, or \<open>urljoin\<close>
  raises on one of its \<open>href\<close> values, or \<open>urlparse\<close> (in \<open>is_internal\<close>) raises on one of
  the links resolved. These are the exceptions that \<open>parse_links\<close> does not catch.
\<close>

definition library_raises :: "env \<Rightarrow> string \<Rightarrow> string \<Rightarrow> bool" where
  "library_raises env page_url html =
     (case find_hrefs env html of
        None \<Rightarrow> True
      | Some hrefs \<Rightarrow>
          list_ex (\<lambda>tag_href.
              case urljoin env page_url (strip tag_href) of
                None \<Rightarrow> True
              | Some joined \<Rightarrow> urlparse env (rstrip_slash (before_hash joined)) = None)
            hrefs)"

section \<open>The extension filter and the fetcher\<close>

lemma endswith_iff: "endswith s suf \<longleftrightarrow> (\<exists>p. s = p @ suf)"
  unfolding endswith_def
  by (metis append_eq_conv_conj append_take_drop_id diff_add_inverse2 length_append
      le_add2 length_drop)

lemma endswith_any_iff: "endswith_any s sufs \<longleftrightarrow> (\<exists>suf\<in>set sufs. \<exists>p. s = p @ suf)"
  by (simp add: endswith_any_def list_ex_iff endswith_iff)

lemma strip_Nil [simp]: "strip [] = []"
  by (simp add: strip_def)

text \<open>
  Claim C10. The extension filter accepts a URL string exactly when the whole string, in
  lower case, ends with none of the listed extensions. The test reads the whole string,
  query included: a URL whose query ends in \<open>.jpg\<close> is rejected, and a URL whose path
  ends in \<open>.jpg\<close> and which has a query after it is accepted.
\<close>

theorem is_valid_url_whole_string:
  "(is_valid_url url \<longleftrightarrow> \<not> (\<exists>ext\<in>set irrelevant_exts. \<exists>p. lower url = p @ ext))
   \<and> \<not> is_valid_url ''https://example.test/page?img=x.jpg''
   \<and> is_valid_url ''https://example.test/a.jpg?x=1''"
proof -
  have "is_valid_url url \<longleftrightarrow> \<not> (\<exists>ext\<in>set irrelevant_exts. \<exists>p. lower url = p @ ext)"
    by (simp add: is_valid_url_def endswith_any_iff)
  moreover have "\<not> is_valid_url ''https://example.test/page?img=x.jpg''"
    by code_simp
  moreover have "is_valid_url ''https://example.test/a.jpg?x=1''"
    by code_simp
  ultimately show ?thesis by blast
qed

theorem is_valid_url_whole_string_witness:
  "is_valid_url ''https://example.test/Shop/Item?id=7''
   \<and> \<not> (\<exists>ext\<in>set irrelevant_exts. \<exists>p.
            lower ''https://example.test/Shop/Item?id=7'' = p @ ext)"
proof -
  have v: "is_valid_url ''https://example.test/Shop/Item?id=7''"
    by code_simp
  from is_valid_url_whole_string [of "''https://example.test/Shop/Item?id=7''"] v
  show ?thesis by blast
qed

text \<open>
  Claim C7. \<open>fetch\<close> returns a value in every case, also when the request or the decoding
  of the body raises. It returns the page exactly when the response has status 200 and
  the body, stripped, is longer than 100 characters; a failed request, another
  status or a shorter body give \<open>None\<close>.
\<close>

theorem fetch_returns_content_or_none:
  "(fetch env url = Some html \<longleftrightarrow>
      (\<exists>response. http_get env url = Some response \<and> resp_status response = 200
         \<and> resp_text response = Some html \<and> 100 < length (strip html)))
   \<and> (fetch_try env url = Inl () \<longrightarrow> fetch env url = None)
   \<and> (http_get env url = None \<longrightarrow> fetch env url = None)
   \<and> (\<forall>response. http_get env url = Some response \<and> resp_status response \<noteq> 200
         \<longrightarrow> fetch env url = None)
   \<and> (\<forall>response body. http_get env url = Some response \<and> resp_text response = Some body
         \<and> length (strip body) \<le> 100 \<longrightarrow> fetch env url = None)"
  by (auto simp: fetch_def fetch_try_def split: option.splits sum.splits)

theorem fetch_returns_content_or_none_witness:
  "fetch site_a ''https://example.test/a'' = Some a_html
   \<and> http_get site_a ''https://example.test/a'' = Some (Response 200 (Some a_html))
   \<and> 100 < length (strip a_html)
   \<and> http_get site_a ''https://example.test/sitemap.xml'' = Some (Response 404 (Some []))
   \<and> fetch site_a ''https://example.test/sitemap.xml'' = None
   \<and> http_get site_a ''https://example.test/zzz'' = None
   \<and> fetch site_a ''https://example.test/zzz'' = None"
proof -
  have g: "http_get site_a ''https://example.test/a'' = Some (Response 200 (Some a_html))"
    by (simp add: site_a_def)
  have l: "100 < length (strip a_html)"
    by code_simp
  have g2: "http_get site_a ''https://example.test/sitemap.xml''
              = Some (Response 404 (Some []))"
    by (simp add: site_a_def)
  have g3: "http_get site_a ''https://example.test/zzz'' = None"
    by (simp add: site_a_def)
  from fetch_returns_content_or_none [of site_a "''https://example.test/a''" a_html] g l
  have 1: "fetch site_a ''https://example.test/a'' = Some a_html" by simp
  from fetch_returns_content_or_none [of site_a "''https://example.test/sitemap.xml''" "[]"] g2
  have 2: "fetch site_a ''https://example.test/sitemap.xml'' = None" by simp
  from fetch_returns_content_or_none [of site_a "''https://example.test/zzz''" "[]"] g3
  have 3: "fetch site_a ''https://example.test/zzz'' = None" by simp
  from 1 2 3 g g2 g3 l show ?thesis by simp
qed

section \<open>What a unit, a round and the loop do to the state\<close>


lemma mset_permute: "mset (permute pick xs) = mset xs"
proof (induction pick xs rule: permute.induct)
  case (1 pick xs)
  show ?case
  proof (cases "xs = []")
    case True
    then show ?thesis by (simp add: permute.simps)
  next
    case False
    define i where "i = pick xs mod length xs"
    from False have i: "i < length xs" by (simp add: i_def)
    have "mset (permute pick (take i xs @ drop (Suc i) xs)) = mset (take i xs @ drop (Suc i) xs)"
      using 1 [OF False i_def] .
    moreover have "permute pick xs = xs ! i # permute pick (take i xs @ drop (Suc i) xs)"
      using False by (subst permute.simps) (simp add: i_def Let_def)
    moreover have "mset xs = mset (take i xs @ xs ! i # drop (Suc i) xs)"
      using id_take_nth_drop [OF i] by simp
    ultimately show ?thesis by simp
  qed
qed

lemma set_permute [simp]: "set (permute pick xs) = set xs"
  using mset_permute [of pick xs] by (metis set_mset_mset)

lemma distinct_permute [simp]: "distinct (permute pick xs) = distinct xs"
  using mset_permute [of pick xs] by (metis distinct_count_atmost_1 count_mset set_permute)

lemma set_set_add [simp]: "set (set_add x xs) = insert x (set xs)"
  by (auto simp: set_add_def)

lemma distinct_set_add [simp]: "distinct (set_add x xs) = distinct xs"
  by (auto simp: set_add_def)

lemma extended_Nil [simp]: "extended s [] [] = s"
  by (simp add: extended_def)

lemma extended_extended [simp]:
  "extended (extended s n1 r1) n2 r2 = extended s (n1 @ n2) (r1 @ r2)"
  by (simp add: extended_def)

lemma extended_fields [simp]:
  "urls_to_visit (extended s new res) = urls_to_visit s @ new"
  "result_urls (extended s new res) = result_urls s @ res"
  "visited_urls (extended s new res) = visited_urls s"
  "max_depth (extended s new res) = max_depth s"
  "max_tasks (extended s new res) = max_tasks s"
  "base_domain (extended s new res) = base_domain s"
  "base_url (extended s new res) = base_url s"
  "robots_loaded (extended s new res) = robots_loaded s"
  "sitemap_loaded (extended s new res) = sitemap_loaded s"
  by (simp_all add: extended_def)

lemma is_internal_extended [simp]:
  "is_internal env (extended s new res) url = is_internal env s url"
  by (simp add: is_internal_def split: option.splits)

lemma can_fetch_extended [simp]:
  "can_fetch env (extended s new res) url = can_fetch env s url"
  by (simp add: can_fetch_def split: option.splits)

lemma parse_links_loop_sound:
  "parse_links_loop env s page_url hrefs acc = Inr links \<Longrightarrow>
     set links \<subseteq> set acc \<union> {l. link_of env s page_url hrefs l}"
proof (induction hrefs arbitrary: acc)
  case Nil
  then show ?case by simp
next
  case (Cons h hs)
  from Cons.prems obtain j where j: "urljoin env page_url (strip h) = Some j"
    by (auto split: option.splits)
  define l where "l = rstrip_slash (before_hash j)"
  from Cons.prems j obtain b where b: "is_internal env s l = Inr b"
    by (auto simp: l_def Let_def split: sum.splits)
  have mono: "{l. link_of env s page_url hs l} \<subseteq> {l. link_of env s page_url (h # hs) l}"
    by (auto simp: link_of_def)
  show ?case
  proof (cases "b \<and> is_valid_url l \<and> can_fetch env s l")
    case True
    with Cons.prems j b have "parse_links_loop env s page_url hs (set_add l acc) = Inr links"
      by (simp add: l_def Let_def)
    from Cons.IH [OF this] have "set links \<subseteq> insert l (set acc) \<union> {l. link_of env s page_url hs l}"
      by simp
    moreover have "link_of env s page_url (h # hs) l"
      using True j b by (auto simp: link_of_def l_def)
    ultimately show ?thesis using mono by auto
  next
    case False
    with Cons.prems j b have "parse_links_loop env s page_url hs acc = Inr links"
      by (auto simp add: l_def Let_def)
    from Cons.IH [OF this] show ?thesis using mono by auto
  qed
qed

lemma parse_links_loop_distinct:
  "parse_links_loop env s page_url hrefs acc = Inr links \<Longrightarrow> distinct acc \<Longrightarrow> distinct links"
  by (induction hrefs arbitrary: acc) (auto simp: Let_def split: option.splits sum.splits if_splits)


lemma parse_links_sound:
  assumes "parse_links env s html page_url = Inr links"
  shows "\<exists>hrefs. find_hrefs env html = Some hrefs \<and> (\<forall>l\<in>set links. link_of env s page_url hrefs l)"
    and "distinct links"
proof -
  from assms obtain hrefs where h: "find_hrefs env html = Some hrefs"
    and l: "parse_links_loop env s page_url hrefs [] = Inr links"
    by (auto simp: parse_links_def split: option.splits)
  from parse_links_loop_sound [OF l] h
  show "\<exists>hrefs. find_hrefs env html = Some hrefs \<and> (\<forall>l\<in>set links. link_of env s page_url hrefs l)"
    by auto
  from parse_links_loop_distinct [OF l] show "distinct links" by simp
qed

lemma handle_url_resume_effect:
  "\<exists>new res. final_state (handle_url_resume env s task) = extended s new res
     \<and> set res \<subseteq> {fst task} \<and> (\<forall>e\<in>set new. enqueued_by env s task e)"
proof -
  obtain url depth where task: "task = (url, depth)" by (cases task)
  define s1 where "s1 = s\<lparr>result_urls := result_urls s @ [url]\<rparr>"
  have s1: "s1 = extended s [] [url]"
    by (simp add: s1_def extended_def)
  show ?thesis
  proof (cases "fetch env url")
    case None
    then have hr: "handle_url_resume env s (url, depth) = Inr s"
      by (simp add: handle_url_resume_def task)
    show ?thesis
      by (rule exI [of _ "[]"], rule exI [of _ "[]"]) (simp add: hr final_state_def task)
  next
    case (Some html)
    show ?thesis
    proof (cases "html = []")
      case True
      with Some have hr: "handle_url_resume env s (url, depth) = Inr s"
        by (simp add: handle_url_resume_def task)
      show ?thesis
        by (rule exI [of _ "[]"], rule exI [of _ "[]"]) (simp add: hr final_state_def task)
    next
      case False
      note nonempty = this
      show ?thesis
      proof (cases "depth < max_depth s")
        case False
        with Some nonempty have hr: "handle_url_resume env s (url, depth) = Inr s1"
          by (simp add: handle_url_resume_def task s1_def Let_def)
        show ?thesis
          by (rule exI [of _ "[]"], rule exI [of _ "[url]"])
             (simp add: hr final_state_def s1 task)
      next
        case True
        show ?thesis
        proof (cases "parse_links env s1 html url")
          case (Inl e)
          with Some nonempty True have hr: "handle_url_resume env s (url, depth) = Inl (e, s1)"
            by (simp add: handle_url_resume_def task s1_def Let_def)
          show ?thesis
            by (rule exI [of _ "[]"], rule exI [of _ "[url]"])
               (simp add: hr final_state_def s1 task)
        next
          case (Inr links)
          define new where "new = map (\<lambda>link. (link, depth + 1))
              (filter (\<lambda>link. link \<notin> visited_urls s1) (permute (set_iter env) links))"
          from Some nonempty True Inr
          have hr: "handle_url_resume env s (url, depth) = Inr (put_all new s1)"
            by (simp add: handle_url_resume_def task s1_def Let_def new_def)
          have eq: "put_all new s1 = extended s new [url]"
            by (simp add: put_all_def s1_def extended_def)
          from parse_links_sound(1) [OF Inr]
          have "\<forall>l\<in>set links. is_internal env s l = Inr True"
            by (auto simp: link_of_def s1)
          then have en: "\<forall>e\<in>set new. enqueued_by env s (url, depth) e"
            using True by (auto simp: new_def enqueued_by_def s1)
          show ?thesis
            by (rule exI [of _ new], rule exI [of _ "[url]"])
               (simp add: hr final_state_def eq task en)
        qed
      qed
    qed
  qed
qed


lemma enqueued_by_extended [simp]:
  "enqueued_by env (extended s new res) task e = enqueued_by env s task e"
  by (simp add: enqueued_by_def)

lemma run_tasks_effect:
  "\<exists>new res. final_state (run_tasks env s tasks) = extended s new res
     \<and> set res \<subseteq> fst ` set tasks
     \<and> (\<forall>e\<in>set new. \<exists>task\<in>set tasks. enqueued_by env s task e)"
proof (induction tasks arbitrary: s)
  case Nil
  show ?case by (intro exI [of _ "[]"] exI [of _ "[]"]) (simp add: final_state_def)
next
  case (Cons task tasks)
  obtain new1 res1 where 1:
    "final_state (handle_url_resume env s task) = extended s new1 res1"
    "set res1 \<subseteq> {fst task}" "\<forall>e\<in>set new1. enqueued_by env s task e"
    using handle_url_resume_effect [of env s task] by blast
  show ?case
  proof (cases "handle_url_resume env s task")
    case (Inl e)
    then have "final_state (run_tasks env s (task # tasks)) = extended s new1 res1"
      using 1(1) by (simp add: final_state_def)
    with 1 show ?thesis
      by (intro exI [of _ new1] exI [of _ res1]) auto
  next
    case (Inr s1)
    with 1(1) have s1: "s1 = extended s new1 res1" by (simp add: final_state_def)
    obtain new2 res2 where 2:
      "final_state (run_tasks env s1 tasks) = extended s1 new2 res2"
      "set res2 \<subseteq> fst ` set tasks" "\<forall>e\<in>set new2. \<exists>task\<in>set tasks. enqueued_by env s1 task e"
      using Cons.IH [of s1] by blast
    have "final_state (run_tasks env s (task # tasks)) = extended s (new1 @ new2) (res1 @ res2)"
      using Inr 2(1) by (simp add: s1)
    moreover have "set (res1 @ res2) \<subseteq> fst ` set (task # tasks)"
      using 1(2) 2(2) by auto
    moreover have "\<forall>e\<in>set (new1 @ new2). \<exists>t\<in>set (task # tasks). enqueued_by env s t e"
      using 1(3) 2(3) by (auto simp: s1)
    ultimately show ?thesis by blast
  qed
qed

lemma foldl_handle_url_begin:
  "foldl handle_url_begin s tasks = s\<lparr>visited_urls := visited_urls s \<union> fst ` set tasks\<rparr>"
  by (induction tasks arbitrary: s) (auto simp: handle_url_begin_def split: prod.splits)

section \<open>Link extraction\<close>

text \<open>
  Claim C8, as amended. Every link that \<open>parse_links\<close> returns is the \<open>href\<close> of an anchor
  of the page, stripped, joined to the page URL and cut at the first \<open>#\<close> and of its
  trailing slashes; it is same-domain; the whole URL string, in lower case, ends with no
  extension of the list; and \<open>can_fetch\<close> allows it. The links are distinct.
\<close>

theorem parse_links_candidates:
  assumes "parse_links env s html page_url = Inr links"
  shows "distinct links \<and>
    (\<exists>hrefs. find_hrefs env html = Some hrefs \<and>
       (\<forall>l\<in>set links.
          (\<exists>h\<in>set hrefs. \<exists>j. urljoin env page_url (strip h) = Some j
             \<and> l = rstrip_slash (before_hash j))
          \<and> is_internal env s l = Inr True
          \<and> \<not> endswith_any (lower l) irrelevant_exts
          \<and> can_fetch env s l))"
  using parse_links_sound [OF assms]
  by (simp add: link_of_def is_valid_url_def)

lemma parse_links_example:
  "parse_links site_a (example_crawler 500 3) home_html ''https://example.test/''
     = Inr [''https://example.test/a'', ''https://example.test/b'']"
  by code_simp

theorem parse_links_candidates_witness:
  "parse_links site_a (example_crawler 500 3) home_html ''https://example.test/''
     = Inr [''https://example.test/a'', ''https://example.test/b'']
   \<and> is_internal site_a (example_crawler 500 3) ''https://example.test/a'' = Inr True
   \<and> \<not> endswith_any (lower ''https://example.test/a'') irrelevant_exts
   \<and> can_fetch site_a (example_crawler 500 3) ''https://example.test/a''"
proof -
  from parse_links_candidates [OF parse_links_example]
  have "is_internal site_a (example_crawler 500 3) ''https://example.test/a'' = Inr True
    \<and> \<not> endswith_any (lower ''https://example.test/a'') irrelevant_exts
    \<and> can_fetch site_a (example_crawler 500 3) ''https://example.test/a''"
    by auto
  with parse_links_example show ?thesis by blast
qed

text \<open>
  Claim C8 as stated says that the path of a returned link ends with no listed extension.
  On \<open>site_img\<close> the link \<open>/a.jpg?x=1\<close> of the home page is returned, and its path is
  \<open>/a.jpg\<close>.
\<close>

theorem parse_links_path_counterexample:
  "init site_img ''https://example.test'' 500 3 = Inr (example_crawler 500 3)
   \<and> parse_links site_img (example_crawler 500 3) img_html ''https://example.test/''
       = Inr [''https://example.test/a.jpg?x=1'']
   \<and> urlparse site_img ''https://example.test/a.jpg?x=1''
       = Some (ParseResult ''example.test'' ''/a.jpg'')
   \<and> endswith (lower ''/a.jpg'') ''.jpg''
   \<and> ''.jpg'' \<in> set irrelevant_exts"
  by code_simp


section \<open>The seed of the queue\<close>

lemma sitemap_loop_sound:
  "sitemap_loop env s locs acc = (ok, urls) \<Longrightarrow>
     set urls \<subseteq> set acc \<union> {u. is_internal env s u = Inr True \<and> is_valid_url u}"
proof (induction locs arbitrary: acc)
  case Nil
  then show ?case by simp
next
  case (Cons loc_text locs)
  show ?case
  proof (cases loc_text)
    case None
    with Cons.prems show ?thesis by simp
  next
    case (Some t)
    show ?thesis
    proof (cases "is_internal env s (strip t)")
      case (Inl e)
      with Cons.prems Some show ?thesis by (simp add: Let_def)
    next
      case (Inr internal)
      show ?thesis
      proof (cases "internal \<and> is_valid_url (strip t)")
        case True
        with Cons.prems Some Inr
        have "sitemap_loop env s locs (set_add (strip t) acc) = (ok, urls)"
          by (simp add: Let_def)
        from Cons.IH [OF this] True Inr show ?thesis by auto
      next
        case False
        with Cons.prems Some Inr have "sitemap_loop env s locs acc = (ok, urls)"
          by (auto simp add: Let_def)
        from Cons.IH [OF this] show ?thesis .
      qed
    qed
  qed
qed

lemma sitemap_loop_distinct:
  "sitemap_loop env s locs acc = (ok, urls) \<Longrightarrow> distinct acc \<Longrightarrow> distinct urls"
  by (induction locs arbitrary: acc)
     (auto simp: Let_def split: option.splits sum.splits if_splits)

lemma load_robots_fields [simp]:
  "base_url (load_robots env s) = base_url s"
  "base_domain (load_robots env s) = base_domain s"
  "max_tasks (load_robots env s) = max_tasks s"
  "max_depth (load_robots env s) = max_depth s"
  "urls_to_visit (load_robots env s) = urls_to_visit s"
  "visited_urls (load_robots env s) = visited_urls s"
  "result_urls (load_robots env s) = result_urls s"
  by (simp_all add: load_robots_def split: option.splits)

lemma parse_sitemap_sound:
  assumes "parse_sitemap env s sm = (urls, s2)"
  shows "s2 = s \<or> s2 = s\<lparr>sitemap_loaded := True\<rparr>"
    and "\<forall>u\<in>set urls. is_internal env s u = Inr True \<and> is_valid_url u"
    and "distinct urls"
proof -
  show "s2 = s \<or> s2 = s\<lparr>sitemap_loaded := True\<rparr>"
    using assms
    by (auto simp: parse_sitemap_def split: option.splits if_splits prod.splits bool.splits)
  have "(\<forall>u\<in>set urls. is_internal env s u = Inr True \<and> is_valid_url u) \<and> distinct urls"
  proof (cases "\<exists>locs ok. sitemap_loop env s locs [] = (ok, urls)")
    case True
    then obtain locs ok where "sitemap_loop env s locs [] = (ok, urls)" by blast
    from sitemap_loop_sound [OF this] sitemap_loop_distinct [OF this] show ?thesis by auto
  next
    case False
    with assms have "urls = []"
      by (auto simp: parse_sitemap_def split: option.splits if_splits prod.splits bool.splits)
    then show ?thesis by simp
  qed
  then show "\<forall>u\<in>set urls. is_internal env s u = Inr True \<and> is_valid_url u"
    and "distinct urls" by blast+
qed

lemma parse_sitemap_fields:
  assumes "parse_sitemap env s sm = (urls, s2)"
  shows "base_url s2 = base_url s" "base_domain s2 = base_domain s"
    "max_tasks s2 = max_tasks s" "max_depth s2 = max_depth s"
    "urls_to_visit s2 = urls_to_visit s" "visited_urls s2 = visited_urls s"
    "result_urls s2 = result_urls s"
  using parse_sitemap_sound(1) [OF assms] by auto

lemma seed_eq:
  assumes "urljoin env (base_url s) ''/sitemap.xml'' = Some sm"
    and "parse_sitemap env (load_robots env s) sm = (urls, s2)"
  shows "seed env s =
    Inr (put_all (if sitemap_loaded s2 \<and> urls \<noteq> []
                  then map (\<lambda>url. (url, 0)) (permute (set_iter env) urls)
                  else [(base_url s, 0)]) s2)"
  using assms parse_sitemap_fields(1) [OF assms(2)]
  by (simp add: seed_def Let_def)

lemma init_fields:
  assumes "init env url mt md = Inr c"
  shows "base_url c = with_slash url" "max_tasks c = mt" "max_depth c = md"
    "urls_to_visit c = []" "visited_urls c = {}" "result_urls c = []"
    "\<exists>pb. urlparse env (with_slash url) = Some pb \<and> base_domain c = netloc pb"
    "0 \<le> mt"
  using assms by (auto simp: init_def split: option.splits if_splits)

text \<open>
  Claim C2, as amended. If the sitemap was read to its end without an exception
  (\<open>sitemap_loaded\<close> is set) and \<open>parse_sitemap\<close> returns a set that is not empty, then the
  queue before the loop holds exactly the URLs of that set, each once and at depth 0; the
  base URL is in the queue only if it is in the set.
\<close>

theorem sitemap_seed:
  assumes "init env url mt md = Inr c"
    and "urljoin env (base_url c) ''/sitemap.xml'' = Some sm"
    and "parse_sitemap env (load_robots env c) sm = (urls, s2)"
    and "sitemap_loaded s2" and "urls \<noteq> []"
  shows "\<exists>s0. seed env c = Inr s0
           \<and> mset (urls_to_visit s0) = mset (map (\<lambda>u. (u, 0)) urls)
           \<and> distinct (urls_to_visit s0)
           \<and> ((base_url c, 0) \<in> set (urls_to_visit s0) \<longleftrightarrow> base_url c \<in> set urls)"
proof -
  define s0 where "s0 = put_all (map (\<lambda>url. (url, 0)) (permute (set_iter env) urls)) s2"
  have seed: "seed env c = Inr s0"
    using seed_eq [OF assms(2,3)] assms(4,5) by (simp add: s0_def)
  have "urls_to_visit s2 = []"
    using parse_sitemap_fields(5) [OF assms(3)] init_fields(4) [OF assms(1)] by simp
  then have q: "urls_to_visit s0 = map (\<lambda>url. (url, 0)) (permute (set_iter env) urls)"
    by (simp add: s0_def put_all_def)
  have "mset (urls_to_visit s0) = mset (map (\<lambda>u. (u, 0)) urls)"
    by (simp add: q mset_permute)
  moreover have "distinct (urls_to_visit s0)"
    using parse_sitemap_sound(3) [OF assms(3)] by (simp add: q distinct_map inj_on_def)
  moreover have "(base_url c, 0) \<in> set (urls_to_visit s0) \<longleftrightarrow> base_url c \<in> set urls"
    by (auto simp: q)
  ultimately show ?thesis using seed by blast
qed

text \<open>
  Claim C3, as amended. If \<open>parse_sitemap\<close> returns no URL, or did not read the sitemap to
  its end, the queue before the loop holds one entry, at depth 0: the URL given to the
  constructor, with a slash appended unless it ends with one.
\<close>

theorem homepage_seed:
  assumes "init env url mt md = Inr c"
    and "urljoin env (base_url c) ''/sitemap.xml'' = Some sm"
    and "parse_sitemap env (load_robots env c) sm = (urls, s2)"
    and "urls = [] \<or> \<not> sitemap_loaded s2"
  shows "\<exists>s0. seed env c = Inr s0
           \<and> urls_to_visit s0 = [(if endswith url ''/'' then url else url @ ''/'', 0)]"
proof -
  have "urls_to_visit s2 = []"
    using parse_sitemap_fields(5) [OF assms(3)] init_fields(4) [OF assms(1)] by simp
  moreover have "base_url c = (if endswith url ''/'' then url else url @ ''/'')"
    using init_fields(1) [OF assms(1)] by (simp add: with_slash_def)
  ultimately show ?thesis
    using seed_eq [OF assms(2,3)] assms(4) by (auto simp: put_all_def)
qed


theorem sitemap_seed_witness:
  "init site_map ''https://example.test'' 500 3 = Inr (example_crawler 500 3)
   \<and> parse_sitemap site_map (load_robots site_map (example_crawler 500 3))
         ''https://example.test/sitemap.xml''
       = ([''https://example.test/a'', ''https://example.test/b''],
          (example_crawler 500 3)\<lparr>robots_loaded := True, sitemap_loaded := True\<rparr>)
   \<and> (\<exists>s0. seed site_map (example_crawler 500 3) = Inr s0
          \<and> mset (urls_to_visit s0)
              = {#(''https://example.test/a'', 0), (''https://example.test/b'', 0)#}
          \<and> distinct (urls_to_visit s0)
          \<and> (''https://example.test/'', 0) \<notin> set (urls_to_visit s0))"
proof -
  have i: "init site_map ''https://example.test'' 500 3 = Inr (example_crawler 500 3)"
    by code_simp
  have j: "urljoin site_map (base_url (example_crawler 500 3)) ''/sitemap.xml''
             = Some ''https://example.test/sitemap.xml''"
    by code_simp
  have p: "parse_sitemap site_map (load_robots site_map (example_crawler 500 3))
             ''https://example.test/sitemap.xml''
           = ([''https://example.test/a'', ''https://example.test/b''],
              (example_crawler 500 3)\<lparr>robots_loaded := True, sitemap_loaded := True\<rparr>)"
    by code_simp
  have b: "base_url (example_crawler 500 3) = ''https://example.test/''"
    by (simp add: example_crawler_def)
  from sitemap_seed [OF i j p] b i p show ?thesis
    by simp
qed

text \<open>
  Claim C2 as stated asks only that the returned set is not empty. On \<open>site_map_broken\<close>
  the loop over the sitemap raises at the second entry: \<open>parse_sitemap\<close> returns the first
  entry, \<open>sitemap_loaded\<close> stays unset, and the queue holds the base URL alone.
\<close>

theorem sitemap_seed_counterexample:
  "init site_map_broken ''https://example.test'' 500 3 = Inr (example_crawler 500 3)
   \<and> fst (parse_sitemap site_map_broken (load_robots site_map_broken (example_crawler 500 3))
            ''https://example.test/sitemap.xml'')
       = [''https://example.test/a'']
   \<and> map_sum id urls_to_visit (seed site_map_broken (example_crawler 500 3))
       = Inr [(''https://example.test/'', 0)]"
  by code_simp

theorem homepage_seed_witness:
  "init site_map_broken ''https://example.test'' 500 3 = Inr (example_crawler 500 3)
   \<and> parse_sitemap site_map_broken (load_robots site_map_broken (example_crawler 500 3))
         ''https://example.test/sitemap.xml''
       = ([''https://example.test/a''], (example_crawler 500 3)\<lparr>robots_loaded := True\<rparr>)
   \<and> (\<exists>s0. seed site_map_broken (example_crawler 500 3) = Inr s0
          \<and> urls_to_visit s0 = [(''https://example.test/'', 0)])"
proof -
  have i: "init site_map_broken ''https://example.test'' 500 3 = Inr (example_crawler 500 3)"
    by code_simp
  have j: "urljoin site_map_broken (base_url (example_crawler 500 3)) ''/sitemap.xml''
             = Some ''https://example.test/sitemap.xml''"
    by code_simp
  have p: "parse_sitemap site_map_broken (load_robots site_map_broken (example_crawler 500 3))
             ''https://example.test/sitemap.xml''
           = ([''https://example.test/a''], (example_crawler 500 3)\<lparr>robots_loaded := True\<rparr>)"
    by code_simp
  have l: "[''https://example.test/a''] = []
           \<or> \<not> sitemap_loaded ((example_crawler 500 3)\<lparr>robots_loaded := True\<rparr>)"
    by (simp add: example_crawler_def)
  have e: "\<not> endswith ''https://example.test'' ''/''"
    by code_simp
  from homepage_seed [OF i j p l] e i p show ?thesis
    by simp
qed

text \<open>
  Claim C3 as stated has the URL given to the constructor in the queue. For
  \<open>https://example.test\<close> the entry is \<open>https://example.test/\<close>.
\<close>

theorem homepage_seed_counterexample:
  "init site_a ''https://example.test'' 500 3 = Inr (example_crawler 500 3)
   \<and> fst (parse_sitemap site_a (load_robots site_a (example_crawler 500 3))
            ''https://example.test/sitemap.xml'') = []
   \<and> map_sum id urls_to_visit (seed site_a (example_crawler 500 3))
       = Inr [(''https://example.test/'', 0)]
   \<and> [(''https://example.test/'', 0)] \<noteq> [(''https://example.test'', 0::int)]"
  by code_simp

section \<open>Rounds\<close>

lemma started_fields [simp]:
  "urls_to_visit (started s) = drop (batch_size s) (urls_to_visit s)"
  "visited_urls (started s) = visited_urls s \<union> fst ` set (create_tasks s)"
  "result_urls (started s) = result_urls s"
  "max_depth (started s) = max_depth s"
  "max_tasks (started s) = max_tasks s"
  "base_domain (started s) = base_domain s"
  "base_url (started s) = base_url s"
  by (simp_all add: started_def dequeue_batch_def)

lemma started_no_tasks: "create_tasks s = [] \<Longrightarrow> started s = dequeue_batch s"
  by (simp add: started_def dequeue_batch_def)

lemma gather_started:
  "gather env (dequeue_batch s) (create_tasks s)
     = run_tasks env (started s) (permute (next_done env) (create_tasks s))"
  by (simp add: gather_def foldl_handle_url_begin started_def dequeue_batch_def)

lemma crawl_round_effect:
  "\<exists>new res. final_state (crawl_round env s) = extended (started s) new res
     \<and> set res \<subseteq> fst ` set (create_tasks s)
     \<and> (\<forall>e\<in>set new. \<exists>task\<in>set (create_tasks s). enqueued_by env (started s) task e)"
proof (cases "create_tasks s = []")
  case True
  then have "crawl_round env s = Inr (started s)"
    by (simp add: crawl_round_def started_no_tasks)
  then show ?thesis
    by (intro exI [of _ "[]"]) (simp add: final_state_def)
next
  case False
  then have "crawl_round env s
      = run_tasks env (started s) (permute (next_done env) (create_tasks s))"
    by (simp add: crawl_round_def gather_started)
  with run_tasks_effect [of env "started s" "permute (next_done env) (create_tasks s)"]
  show ?thesis by simp
qed

lemma create_tasks_subset: "set (create_tasks s) \<subseteq> set (urls_to_visit s)"
  by (auto simp: create_tasks_def dest: in_set_takeD)

lemma create_tasks_guard:
  "task \<in> set (create_tasks s) \<Longrightarrow> fst task \<notin> visited_urls s \<and> snd task \<le> max_depth s"
  by (auto simp: create_tasks_def)

lemma crawl_loop_invariant:
  assumes "crawl_loop env fuel s = Some r" and "P s"
    and "\<And>s. P s \<Longrightarrow> P (final_state (crawl_round env s))"
  shows "P (final_state r)"
  using assms(1,2)
proof (induction fuel arbitrary: s)
  case 0
  then show ?case by (auto simp: final_state_def split: if_splits)
next
  case (Suc fuel)
  show ?case
  proof (cases "urls_to_visit s = []")
    case True
    with Suc.prems show ?thesis by (auto simp: final_state_def)
  next
    case False
    from assms(3) [OF Suc.prems(2)] have P: "P (final_state (crawl_round env s))" .
    show ?thesis
    proof (cases "crawl_round env s")
      case (Inl e)
      with Suc.prems(1) False have "r = Inl e" by simp
      with P Inl show ?thesis by simp
    next
      case (Inr s')
      with Suc.prems(1) False have "crawl_loop env fuel s' = Some r" by simp
      moreover from P Inr have "P s'" by (simp add: final_state_def)
      ultimately show ?thesis by (rule Suc.IH)
    qed
  qed
qed

lemma rounds_invariant:
  assumes "rounds env k s = Some s'" and "P s"
    and "\<And>s. P s \<Longrightarrow> P (final_state (crawl_round env s))"
  shows "P s'"
  using assms(1,2)
proof (induction k arbitrary: s)
  case 0
  then show ?case by simp
next
  case (Suc k)
  from Suc.prems(1) obtain s1 where 1: "crawl_round env s = Inr s1"
    and 2: "rounds env k s1 = Some s'"
    by (auto split: if_splits sum.splits)
  from assms(3) [OF Suc.prems(2)] 1 have "P s1" by (simp add: final_state_def)
  with 2 show ?case by (rule Suc.IH)
qed


lemma is_internal_started [simp]:
  "is_internal env (started s) url = is_internal env s url"
  by (simp add: is_internal_def split: option.splits)

lemma seed_state:
  assumes "init env url mt md = Inr c" and "seed env c = Inr s0"
  shows "base_domain s0 = base_domain c" "max_depth s0 = md" "max_tasks s0 = mt"
    "result_urls s0 = []" "visited_urls s0 = {}"
    "\<forall>e\<in>set (urls_to_visit s0). snd e = 0 \<and> is_internal env c (fst e) = Inr True"
proof -
  from assms(2) obtain sm where sm: "urljoin env (base_url c) ''/sitemap.xml'' = Some sm"
    by (auto simp: seed_def Let_def split: option.splits)
  obtain urls s2 where p: "parse_sitemap env (load_robots env c) sm = (urls, s2)"
    by (cases "parse_sitemap env (load_robots env c) sm")
  note f = parse_sitemap_fields [OF p] init_fields [OF assms(1)]
  have s0: "s0 = put_all (if sitemap_loaded s2 \<and> urls \<noteq> []
                  then map (\<lambda>url. (url, 0)) (permute (set_iter env) urls)
                  else [(base_url c, 0)]) s2"
    using seed_eq [OF sm p] assms(2) by simp
  show "base_domain s0 = base_domain c" "max_depth s0 = md" "max_tasks s0 = mt"
    "result_urls s0 = []" "visited_urls s0 = {}"
    using f by (simp_all add: s0 put_all_def)
  have base: "is_internal env c (base_url c) = Inr True"
    using f(8,14) by (auto simp: is_internal_def)
  have "\<forall>u\<in>set urls. is_internal env c u = Inr True"
    using parse_sitemap_sound(2) [OF p] by (simp add: is_internal_def split: option.splits)
  with base show "\<forall>e\<in>set (urls_to_visit s0). snd e = 0 \<and> is_internal env c (fst e) = Inr True"
    using f by (auto simp: s0 put_all_def)
qed

lemma internal_preserved:
  assumes "base_domain s = bd"
    and "\<forall>e\<in>set (urls_to_visit s). is_internal env s (fst e) = Inr True"
    and "\<forall>u\<in>set (result_urls s). is_internal env s u = Inr True"
  defines "s' \<equiv> final_state (crawl_round env s)"
  shows "base_domain s' = bd \<and> (\<forall>e\<in>set (urls_to_visit s'). is_internal env s' (fst e) = Inr True)
    \<and> (\<forall>u\<in>set (result_urls s'). is_internal env s' u = Inr True)"
proof -
  obtain new res where e: "s' = extended (started s) new res"
    "set res \<subseteq> fst ` set (create_tasks s)"
    "\<forall>e\<in>set new. \<exists>task\<in>set (create_tasks s). enqueued_by env (started s) task e"
    using crawl_round_effect [of env s] unfolding s'_def by blast
  have i: "is_internal env s' u = is_internal env s u" for u
    by (simp add: e(1))
  have q: "urls_to_visit s' = drop (batch_size s) (urls_to_visit s) @ new"
    and r: "result_urls s' = result_urls s @ res"
    and d: "base_domain s' = base_domain s"
    by (simp_all add: e(1))
  have n: "\<forall>e\<in>set new. is_internal env s (fst e) = Inr True"
    using e(3) by (auto simp: enqueued_by_def)
  have "\<forall>t\<in>set (create_tasks s). is_internal env s (fst t) = Inr True"
    using create_tasks_subset [of s] assms(2) by blast
  with e(2) have rs: "\<forall>u\<in>set res. is_internal env s u = Inr True"
    by auto
  have "\<forall>e\<in>set (drop (batch_size s) (urls_to_visit s)). is_internal env s (fst e) = Inr True"
    using set_drop_subset [of "batch_size s" "urls_to_visit s"] assms(2) by blast
  with n have "\<forall>e\<in>set (urls_to_visit s'). is_internal env s' (fst e) = Inr True"
    unfolding q i by auto
  moreover from rs assms(3) have "\<forall>u\<in>set (result_urls s'). is_internal env s' u = Inr True"
    unfolding r i by auto
  ultimately show ?thesis using d assms(1) by simp
qed

section \<open>Invariants of the crawl\<close>

text \<open>
  Claim C6. Every URL in the result list at the end of a crawl, normal or by an
  exception, is same-domain: \<open>urlparse\<close> gives it a network location that is empty or equal
  to that of the base URL. The URLs of the list come from the queue, which holds the seed
  (the base URL, or sitemap entries that \<open>is_internal\<close> accepted) and links that
  \<open>is_internal\<close> accepted.
\<close>

theorem results_same_domain:
  assumes "init env url mt md = Inr c" and "crawl env fuel c = Some r"
  shows "\<forall>u\<in>set (result_urls (final_state r)).
           \<exists>p pb. urlparse env u = Some p \<and> urlparse env (with_slash url) = Some pb
             \<and> (netloc p = [] \<or> netloc p = netloc pb)"
proof -
  obtain pb where pb: "urlparse env (with_slash url) = Some pb" "base_domain c = netloc pb"
    using init_fields(7) [OF assms(1)] by blast
  define P where "P s \<longleftrightarrow> base_domain s = base_domain c
      \<and> (\<forall>e\<in>set (urls_to_visit s). is_internal env s (fst e) = Inr True)
      \<and> (\<forall>u\<in>set (result_urls s). is_internal env s u = Inr True)" for s
  have step: "P (final_state (crawl_round env s))" if "P s" for s
    using internal_preserved [of s "base_domain c" env] that by (simp add: P_def)
  have "P (final_state r)"
  proof (cases "seed env c")
    case (Inl e)
    with assms(2) have "r = Inl (e, c)" by (simp add: crawl_def)
    then have "final_state r = c" by (simp add: final_state_def)
    then show ?thesis
      using init_fields(4,6) [OF assms(1)] by (simp add: P_def)
  next
    case (Inr s0)
    with assms(2) have l: "crawl_loop env fuel s0 = Some r" by (simp add: crawl_def)
    have "P s0"
      using seed_state [OF assms(1) Inr]
      by (simp add: P_def is_internal_def split: option.splits)
    with l show ?thesis using step by (rule crawl_loop_invariant)
  qed
  then have "\<forall>u\<in>set (result_urls (final_state r)).
      is_internal env (final_state r) u = Inr True" and "base_domain (final_state r) = netloc pb"
    by (simp_all add: P_def pb)
  then show ?thesis
    using pb(1) by (auto simp: is_internal_def split: option.splits)
qed

lemma site_a_run:
  "init site_a ''https://example.test'' 1 2 = Inr (example_crawler 1 2)"
  "crawl site_a 5 (example_crawler 1 2)
     = Some (Inr (site_a_state []
         [''https://example.test/'', ''https://example.test/a'',
          ''https://example.test/b'', ''https://example.test/c'']))"
  by code_simp+

theorem results_same_domain_witness:
  "init site_a ''https://example.test'' 1 2 = Inr (example_crawler 1 2)
   \<and> crawl site_a 5 (example_crawler 1 2)
     = Some (Inr (site_a_state []
         [''https://example.test/'', ''https://example.test/a'',
          ''https://example.test/b'', ''https://example.test/c'']))
   \<and> (\<exists>p pb. urlparse site_a ''https://example.test/c'' = Some p
         \<and> urlparse site_a (with_slash ''https://example.test'') = Some pb
         \<and> (netloc p = [] \<or> netloc p = netloc pb))"
proof -
  have "''https://example.test/c'' \<in> set (result_urls (final_state (Inr (site_a_state []
         [''https://example.test/'', ''https://example.test/a'',
          ''https://example.test/b'', ''https://example.test/c'']))))"
    by (simp add: final_state_def site_a_state_def)
  with results_same_domain [OF site_a_run] site_a_run show ?thesis
    by blast
qed


lemma depth_preserved:
  assumes "max_depth s = md"
    and "\<forall>e\<in>set (urls_to_visit s). 0 \<le> snd e \<and> (snd e = 0 \<or> snd e \<le> md)"
  shows "max_depth (final_state (crawl_round env s)) = md
    \<and> (\<forall>e\<in>set (urls_to_visit (final_state (crawl_round env s))).
          0 \<le> snd e \<and> (snd e = 0 \<or> snd e \<le> md))"
proof -
  define s' where "s' = final_state (crawl_round env s)"
  obtain new res where e: "s' = extended (started s) new res"
    "\<forall>e\<in>set new. \<exists>task\<in>set (create_tasks s). enqueued_by env (started s) task e"
    using crawl_round_effect [of env s] unfolding s'_def by blast
  have q: "urls_to_visit s' = drop (batch_size s) (urls_to_visit s) @ new"
    and m: "max_depth s' = max_depth s"
    by (simp_all add: e(1))
  have "\<forall>t\<in>set (create_tasks s). 0 \<le> snd t"
    using create_tasks_subset [of s] assms(2) by blast
  with e(2) have "\<forall>e\<in>set new. 0 \<le> snd e \<and> snd e \<le> md"
    by (fastforce simp: enqueued_by_def assms(1))
  moreover have "\<forall>e\<in>set (drop (batch_size s) (urls_to_visit s)).
      0 \<le> snd e \<and> (snd e = 0 \<or> snd e \<le> md)"
    using set_drop_subset [of "batch_size s" "urls_to_visit s"] assms(2) by blast
  ultimately have "max_depth s' = md
    \<and> (\<forall>e\<in>set (urls_to_visit s'). 0 \<le> snd e \<and> (snd e = 0 \<or> snd e \<le> md))"
    unfolding q m using assms(1) by auto
  then show ?thesis by (simp add: s'_def)
qed

text \<open>
  Claim C1. At the start of every pass of the loop, each unit created has a depth of at
  most \<open>max_depth\<close>, and each entry of the queue has depth 0 or a depth between 1 and
  \<open>max_depth\<close>; each entry a round puts in the queue has depth \<open>d + 1\<close> for a unit of the
  round of depth \<open>d < max_depth\<close>.
\<close>

theorem fetched_depth_bounded:
  assumes "init env url mt md = Inr c" and "seed env c = Inr s0"
    and "rounds env k s0 = Some s"
  shows "(\<forall>(u, d)\<in>set (create_tasks s). d \<le> md)
    \<and> (\<forall>(u, d)\<in>set (urls_to_visit s). 0 \<le> d \<and> (d = 0 \<or> d \<le> md))
    \<and> (\<exists>new res. final_state (crawl_round env s) = extended (started s) new res
          \<and> (\<forall>(l, d)\<in>set new. \<exists>(u, d0)\<in>set (create_tasks s). d = d0 + 1 \<and> d0 < md))"
proof -
  define Q where "Q s \<longleftrightarrow> max_depth s = md
      \<and> (\<forall>e\<in>set (urls_to_visit s). 0 \<le> snd e \<and> (snd e = 0 \<or> snd e \<le> md))" for s :: crawler
  have step: "Q (final_state (crawl_round env s))" if "Q s" for s
    using depth_preserved [of s md env] that by (simp add: Q_def)
  have "Q s0"
    using seed_state [OF assms(1,2)] by (simp add: Q_def)
  with assms(3) have Q: "Q s" using step by (rule rounds_invariant)
  then have md: "max_depth s = md" by (simp add: Q_def)
  have 1: "\<forall>(u, d)\<in>set (create_tasks s). d \<le> md"
    using create_tasks_guard [of _ s] md by auto
  have 2: "\<forall>(u, d)\<in>set (urls_to_visit s). 0 \<le> d \<and> (d = 0 \<or> d \<le> md)"
    using Q by (auto simp: Q_def)
  obtain new res where e: "final_state (crawl_round env s) = extended (started s) new res"
    "\<forall>e\<in>set new. \<exists>task\<in>set (create_tasks s). enqueued_by env (started s) task e"
    using crawl_round_effect [of env s] by blast
  have "\<forall>(l, d)\<in>set new. \<exists>(u, d0)\<in>set (create_tasks s). d = d0 + 1 \<and> d0 < md"
    using e(2) by (fastforce simp: enqueued_by_def md)
  with e(1) 1 2 show ?thesis by blast
qed

lemma site_a_rounds:
  "seed site_a (example_crawler 1 2) = Inr (site_a_state [(''https://example.test/'', 0)] [])"
  "rounds site_a 2 (site_a_state [(''https://example.test/'', 0)] [])
     = Some (site_a_state
         [(''https://example.test/b'', 1), (''https://example.test/b'', 2),
          (''https://example.test/c'', 2)]
         [''https://example.test/'', ''https://example.test/a''])"
  "create_tasks (site_a_state
         [(''https://example.test/b'', 1), (''https://example.test/b'', 2),
          (''https://example.test/c'', 2)]
         [''https://example.test/'', ''https://example.test/a''])
     = [(''https://example.test/b'', 1)]"
  by code_simp+

theorem fetched_depth_bounded_witness:
  "init site_a ''https://example.test'' 1 2 = Inr (example_crawler 1 2)
   \<and> seed site_a (example_crawler 1 2)
       = Inr (site_a_state [(''https://example.test/'', 0)] [])
   \<and> rounds site_a 2 (site_a_state [(''https://example.test/'', 0)] [])
       = Some (site_a_state
           [(''https://example.test/b'', 1), (''https://example.test/b'', 2),
            (''https://example.test/c'', 2)]
           [''https://example.test/'', ''https://example.test/a''])
   \<and> create_tasks (site_a_state
           [(''https://example.test/b'', 1), (''https://example.test/b'', 2),
            (''https://example.test/c'', 2)]
           [''https://example.test/'', ''https://example.test/a''])
       = [(''https://example.test/b'', 1)]
   \<and> snd (hd (create_tasks (site_a_state
           [(''https://example.test/b'', 1), (''https://example.test/b'', 2),
            (''https://example.test/c'', 2)]
           [''https://example.test/'', ''https://example.test/a'']))) \<le> 2"
proof -
  from fetched_depth_bounded [OF site_a_run(1) site_a_rounds(1,2)]
  have "\<forall>(u, d)\<in>set (create_tasks (site_a_state
           [(''https://example.test/b'', 1), (''https://example.test/b'', 2),
            (''https://example.test/c'', 2)]
           [''https://example.test/'', ''https://example.test/a''])). d \<le> 2"
    by blast
  then show ?thesis
    using site_a_run(1) site_a_rounds by simp
qed

text \<open>
  Claim C5. The visited set only grows: over any number of rounds, over the next round,
  when a unit starts and when it resumes. A URL in the visited set at the start of a
  round is the URL of no unit created in that round or in a later one.
\<close>

theorem visited_grows_and_blocks:
  assumes "rounds env k s = Some s'"
  shows "visited_urls s \<subseteq> visited_urls s'
    \<and> (\<forall>(u, d)\<in>set (create_tasks s'). u \<notin> visited_urls s)
    \<and> visited_urls s' \<subseteq> visited_urls (final_state (crawl_round env s'))
    \<and> (\<forall>task. visited_urls s' \<subseteq> visited_urls (handle_url_begin s' task))
    \<and> (\<forall>task. visited_urls (final_state (handle_url_resume env s' task)) = visited_urls s')"
proof -
  have grow: "visited_urls x \<subseteq> visited_urls (final_state (crawl_round env x))" for x
    using crawl_round_effect [of env x] by auto
  have step: "visited_urls s \<subseteq> visited_urls (final_state (crawl_round env x))"
    if "visited_urls s \<subseteq> visited_urls x" for x
    using that grow [of x] by blast
  have "visited_urls s \<subseteq> visited_urls s" by simp
  with assms have 1: "visited_urls s \<subseteq> visited_urls s'"
    using step by (rule rounds_invariant)
  have 2: "\<forall>(u, d)\<in>set (create_tasks s'). u \<notin> visited_urls s"
    using create_tasks_guard [of _ s'] 1 by auto
  have 4: "\<forall>task. visited_urls s' \<subseteq> visited_urls (handle_url_begin s' task)"
    by (auto simp: handle_url_begin_def)
  have 5: "\<forall>task. visited_urls (final_state (handle_url_resume env s' task)) = visited_urls s'"
    using handle_url_resume_effect [of env s'] by (metis extended_fields(3))
  from 1 2 grow [of s'] 4 5 show ?thesis by blast
qed

lemma site_a_round_1_2:
  "rounds site_a 1 (site_a_state
       [(''https://example.test/a'', 1), (''https://example.test/b'', 1)]
       [''https://example.test/''])
     = Some (site_a_state
         [(''https://example.test/b'', 1), (''https://example.test/b'', 2),
          (''https://example.test/c'', 2)]
         [''https://example.test/'', ''https://example.test/a''])"
  by code_simp

theorem visited_grows_and_blocks_witness:
  "rounds site_a 1 (site_a_state
       [(''https://example.test/a'', 1), (''https://example.test/b'', 1)]
       [''https://example.test/''])
     = Some (site_a_state
         [(''https://example.test/b'', 1), (''https://example.test/b'', 2),
          (''https://example.test/c'', 2)]
         [''https://example.test/'', ''https://example.test/a''])
   \<and> visited_urls (site_a_state
       [(''https://example.test/a'', 1), (''https://example.test/b'', 1)]
       [''https://example.test/''])
     \<subseteq> visited_urls (site_a_state
         [(''https://example.test/b'', 1), (''https://example.test/b'', 2),
          (''https://example.test/c'', 2)]
         [''https://example.test/'', ''https://example.test/a''])
   \<and> ''https://example.test/a'' \<in> visited_urls (site_a_state
         [(''https://example.test/b'', 1), (''https://example.test/b'', 2),
          (''https://example.test/c'', 2)]
         [''https://example.test/'', ''https://example.test/a''])"
proof -
  have "''https://example.test/a'' \<in> visited_urls (site_a_state
         [(''https://example.test/b'', 1), (''https://example.test/b'', 2),
          (''https://example.test/c'', 2)]
         [''https://example.test/'', ''https://example.test/a''])"
    by (simp add: site_a_state_def)
  with visited_grows_and_blocks [OF site_a_round_1_2] site_a_round_1_2
  show ?thesis by blast
qed

section \<open>The end of the loop\<close>

lemma crawl_loop_rounds:
  "crawl_loop env fuel s = Some (Inr t)
     \<longleftrightarrow> (\<exists>k\<le>fuel. rounds env k s = Some t \<and> urls_to_visit t = [])"
proof (induction fuel arbitrary: s)
  case 0
  show ?case by auto
next
  case (Suc fuel)
  show ?case
  proof (cases "urls_to_visit s = []")
    case True
    have "(\<exists>k\<le>Suc fuel. rounds env k s = Some t \<and> urls_to_visit t = []) \<longleftrightarrow> t = s"
    proof
      assume "\<exists>k\<le>Suc fuel. rounds env k s = Some t \<and> urls_to_visit t = []"
      then obtain k where k: "rounds env k s = Some t" by blast
      with True show "t = s" by (cases k) auto
    next
      assume "t = s"
      with True have "rounds env 0 s = Some t \<and> urls_to_visit t = []" by simp
      then show "\<exists>k\<le>Suc fuel. rounds env k s = Some t \<and> urls_to_visit t = []" by blast
    qed
    with True show ?thesis by auto
  next
    case False
    show ?thesis
    proof (cases "crawl_round env s")
      case (Inl e)
      have "\<not> (\<exists>k\<le>Suc fuel. rounds env k s = Some t \<and> urls_to_visit t = [])"
      proof
        assume "\<exists>k\<le>Suc fuel. rounds env k s = Some t \<and> urls_to_visit t = []"
        then obtain k where k: "rounds env k s = Some t" "urls_to_visit t = []" by blast
        with False Inl show False by (cases k) auto
      qed
      with False Inl show ?thesis by simp
    next
      case (Inr s')
      have "(\<exists>k\<le>Suc fuel. rounds env k s = Some t \<and> urls_to_visit t = [])
          \<longleftrightarrow> (\<exists>k\<le>fuel. rounds env k s' = Some t \<and> urls_to_visit t = [])"
      proof
        assume "\<exists>k\<le>Suc fuel. rounds env k s = Some t \<and> urls_to_visit t = []"
        then obtain k where k: "k \<le> Suc fuel" "rounds env k s = Some t" "urls_to_visit t = []"
          by blast
        with False obtain k' where "k = Suc k'" by (cases k) auto
        with k False Inr have "k' \<le> fuel \<and> rounds env k' s' = Some t \<and> urls_to_visit t = []"
          by simp
        then show "\<exists>k\<le>fuel. rounds env k s' = Some t \<and> urls_to_visit t = []" by blast
      next
        assume "\<exists>k\<le>fuel. rounds env k s' = Some t \<and> urls_to_visit t = []"
        then obtain k where "k \<le> fuel" "rounds env k s' = Some t" "urls_to_visit t = []"
          by blast
        with False Inr
        have "Suc k \<le> Suc fuel \<and> rounds env (Suc k) s = Some t \<and> urls_to_visit t = []"
          by simp
        then show "\<exists>k\<le>Suc fuel. rounds env k s = Some t \<and> urls_to_visit t = []" by blast
      qed
      with False Inr Suc.IH [of s'] show ?thesis by simp
    qed
  qed
qed

text \<open>
  Claim C4, as amended. The loop ends normally exactly when the queue is empty at the
  start of a pass: it returns \<open>t\<close> if and only if \<open>t\<close> is the state after some number of
  complete rounds and the queue of \<open>t\<close> is empty. A round whose batch is not empty and has
  every entry filtered out creates no unit: it takes the batch out of the queue, leaves
  the visited set and the result list as they are, and the loop goes on with what is
  left in the queue.
\<close>

theorem crawl_loop_ends_on_empty_frontier:
  "(crawl_loop env fuel s = Some (Inr t)
      \<longleftrightarrow> (\<exists>k\<le>fuel. rounds env k s = Some t \<and> urls_to_visit t = []))
   \<and> (urls_to_visit s \<noteq> [] \<and> create_tasks s = []
        \<longrightarrow> crawl_round env s = Inr (dequeue_batch s)
          \<and> visited_urls (dequeue_batch s) = visited_urls s
          \<and> result_urls (dequeue_batch s) = result_urls s
          \<and> crawl_loop env (Suc fuel) s = crawl_loop env fuel (dequeue_batch s))"
  using crawl_loop_rounds [of env fuel s t]
  by (simp add: crawl_round_def dequeue_batch_def)


lemma site_a_filtered_round:
  "urls_to_visit (site_a_state
       [(''https://example.test/b'', 2), (''https://example.test/c'', 2)]
       [''https://example.test/'', ''https://example.test/a'', ''https://example.test/b''])
     \<noteq> []
   \<and> create_tasks (site_a_state
       [(''https://example.test/b'', 2), (''https://example.test/c'', 2)]
       [''https://example.test/'', ''https://example.test/a'', ''https://example.test/b''])
     = []"
  by code_simp

theorem crawl_loop_ends_on_empty_frontier_witness:
  "crawl_round site_a (site_a_state
       [(''https://example.test/b'', 2), (''https://example.test/c'', 2)]
       [''https://example.test/'', ''https://example.test/a'', ''https://example.test/b''])
     = Inr (dequeue_batch (site_a_state
         [(''https://example.test/b'', 2), (''https://example.test/c'', 2)]
         [''https://example.test/'', ''https://example.test/a'', ''https://example.test/b'']))
   \<and> crawl_loop site_a (Suc 1) (site_a_state
       [(''https://example.test/b'', 2), (''https://example.test/c'', 2)]
       [''https://example.test/'', ''https://example.test/a'', ''https://example.test/b''])
     = crawl_loop site_a 1 (dequeue_batch (site_a_state
         [(''https://example.test/b'', 2), (''https://example.test/c'', 2)]
         [''https://example.test/'', ''https://example.test/a'', ''https://example.test/b'']))"
  using crawl_loop_ends_on_empty_frontier [of site_a 1 "site_a_state
       [(''https://example.test/b'', 2), (''https://example.test/c'', 2)]
       [''https://example.test/'', ''https://example.test/a'', ''https://example.test/b'']"]
    site_a_filtered_round
  by blast

text \<open>
  Claim C4 as stated has the crawl end with a round whose batch is not empty and
  filtered out entirely. On \<open>site_a\<close> with \<open>max_tasks = 1\<close> and \<open>max_depth = 2\<close> the fourth
  round takes \<open>(/b, 2)\<close>, already visited, and creates no unit; the queue still holds
  \<open>(/c, 2)\<close>, the loop has not ended, and the fifth round fetches \<open>/c\<close>.
\<close>

theorem all_filtered_round_counterexample:
  "seed site_a (example_crawler 1 2)
     = Inr (site_a_state [(''https://example.test/'', 0)] [])
   \<and> rounds site_a 3 (site_a_state [(''https://example.test/'', 0)] [])
     = Some (site_a_state
         [(''https://example.test/b'', 2), (''https://example.test/c'', 2)]
         [''https://example.test/'', ''https://example.test/a'', ''https://example.test/b''])
   \<and> take (batch_size (site_a_state
         [(''https://example.test/b'', 2), (''https://example.test/c'', 2)]
         [''https://example.test/'', ''https://example.test/a'', ''https://example.test/b'']))
       [(''https://example.test/b'', 2 :: int), (''https://example.test/c'', 2)]
     = [(''https://example.test/b'', 2)]
   \<and> create_tasks (site_a_state
         [(''https://example.test/b'', 2), (''https://example.test/c'', 2)]
         [''https://example.test/'', ''https://example.test/a'', ''https://example.test/b''])
     = []
   \<and> crawl_round site_a (site_a_state
         [(''https://example.test/b'', 2), (''https://example.test/c'', 2)]
         [''https://example.test/'', ''https://example.test/a'', ''https://example.test/b''])
     = Inr (site_a_state [(''https://example.test/c'', 2)]
         [''https://example.test/'', ''https://example.test/a'', ''https://example.test/b''])
   \<and> crawl_loop site_a 0 (site_a_state [(''https://example.test/c'', 2)]
         [''https://example.test/'', ''https://example.test/a'', ''https://example.test/b''])
     = None
   \<and> crawl_loop site_a 1 (site_a_state [(''https://example.test/c'', 2)]
         [''https://example.test/'', ''https://example.test/a'', ''https://example.test/b''])
     = Some (Inr (site_a_state []
         [''https://example.test/'', ''https://example.test/a'', ''https://example.test/b'',
          ''https://example.test/c'']))
   \<and> run site_a 5 ''https://example.test'' 1 2
     = Some (Inr [''https://example.test/'', ''https://example.test/a'',
                  ''https://example.test/b'', ''https://example.test/c''])"
  by code_simp

section \<open>Termination and failures\<close>

lemma create_tasks_batch: "set (create_tasks s) \<subseteq> set (take (batch_size s) (urls_to_visit s))"
  by (auto simp: create_tasks_def)

lemma round_decreases:
  assumes "urls_to_visit s \<noteq> []" and "1 \<le> max_tasks s"
  shows "(frontier_measure (final_state (crawl_round env s)), frontier_measure s)
           \<in> mult less_than"
proof -
  define s' where "s' = final_state (crawl_round env s)"
  define w where "w = (\<lambda>e :: string \<times> int. nat (max_depth s + 1 - snd e))"
  define n where "n = batch_size s"
  obtain new res where e: "s' = extended (started s) new res"
    "\<forall>e\<in>set new. \<exists>task\<in>set (create_tasks s). enqueued_by env (started s) task e"
    using crawl_round_effect [of env s] unfolding s'_def by blast
  have q: "urls_to_visit s' = drop n (urls_to_visit s) @ new"
    and m: "max_depth s' = max_depth s"
    by (simp_all add: e(1) n_def)
  have "0 < n"
    using assms(1,2) by (cases "urls_to_visit s") (auto simp: n_def batch_size_def)
  with assms(1) have batch: "take n (urls_to_visit s) \<noteq> []"
    by (cases "urls_to_visit s") auto
  have less: "\<exists>t\<in>set (take n (urls_to_visit s)). w e < w t" if "e \<in> set new" for e
  proof -
    from e(2) that obtain t where t: "t \<in> set (create_tasks s)"
      "enqueued_by env (started s) t e" by blast
    then have "snd e = snd t + 1" "snd t < max_depth s"
      by (simp_all add: enqueued_by_def)
    then have "w e < w t" by (simp add: w_def)
    with t(1) create_tasks_batch [of s] show ?thesis
      unfolding n_def by blast
  qed
  have M': "frontier_measure s' = image_mset w (mset (drop n (urls_to_visit s)))
      + image_mset w (mset new)"
    by (simp add: frontier_measure_def q m w_def)
  have "mset (urls_to_visit s) = mset (take n (urls_to_visit s) @ drop n (urls_to_visit s))"
    by (simp only: append_take_drop_id)
  also have "\<dots> = mset (take n (urls_to_visit s)) + mset (drop n (urls_to_visit s))"
    by (rule mset_append)
  also have "\<dots> = mset (drop n (urls_to_visit s)) + mset (take n (urls_to_visit s))"
    by (rule add.commute)
  finally have split: "mset (urls_to_visit s)
      = mset (drop n (urls_to_visit s)) + mset (take n (urls_to_visit s))" .
  have "frontier_measure s = image_mset w (mset (urls_to_visit s))"
    by (simp add: frontier_measure_def w_def)
  also have "\<dots> = image_mset w
      (mset (drop n (urls_to_visit s)) + mset (take n (urls_to_visit s)))"
    by (rule arg_cong [OF split])
  finally have M: "frontier_measure s = image_mset w (mset (drop n (urls_to_visit s)))
      + image_mset w (mset (take n (urls_to_visit s)))"
    by (simp only: image_mset_union)
  have "(frontier_measure s', frontier_measure s) \<in> mult less_than"
    unfolding M M'
  proof (rule one_step_implies_mult)
    show "image_mset w (mset (take n (urls_to_visit s))) \<noteq> {#}"
      using batch by simp
    show "\<forall>k\<in>#image_mset w (mset new).
        \<exists>j\<in>#image_mset w (mset (take n (urls_to_visit s))). (k, j) \<in> less_than"
      using less by auto
  qed
  then show ?thesis by (simp only: s'_def)
qed

lemma crawl_loop_terminates:
  assumes "1 \<le> max_tasks s"
  shows "\<exists>fuel r. crawl_loop env fuel s = Some r"
proof -
  have "wf (inv_image (mult less_than) frontier_measure)"
    by (intro wf_inv_image wf_mult wf_less_than)
  then show ?thesis
    using assms
  proof (induction s rule: wf_induct_rule)
    case (less s)
    show ?case
    proof (cases "urls_to_visit s = []")
      case True
      then have "crawl_loop env 0 s = Some (Inr s)" by simp
      then show ?thesis by blast
    next
      case False
      show ?thesis
      proof (cases "crawl_round env s")
        case (Inl e)
        with False have "crawl_loop env (Suc 0) s = Some (Inl e)" by simp
        then show ?thesis by blast
      next
        case (Inr s')
        then have s': "s' = final_state (crawl_round env s)" by (simp add: final_state_def)
        have "(s', s) \<in> inv_image (mult less_than) frontier_measure"
          using round_decreases [OF False less.prems, of env] by (simp only: s' in_inv_image)
        moreover have "max_tasks s' = max_tasks s"
          using crawl_round_effect [of env s] unfolding s' by (metis extended_fields(5) started_fields(5))
        with less.prems have "1 \<le> max_tasks s'" by simp
        ultimately obtain fuel r where "crawl_loop env fuel s' = Some r"
          using less.IH by blast
        with False Inr have "crawl_loop env (Suc fuel) s = Some r" by simp
        then show ?thesis by blast
      qed
    qed
  qed
qed


text \<open>
  The crawl ends by an exception in two places only: at the \<open>urljoin\<close> for the sitemap,
  and in \<open>parse_links\<close>, for a page that was fetched with content. \<open>parse_links\<close> raises
  exactly when one of its library calls does.
\<close>

lemma parse_links_loop_raises:
  "(\<exists>e. parse_links_loop env s page_url hrefs acc = Inl e)
     \<longleftrightarrow> list_ex (\<lambda>tag_href.
            case urljoin env page_url (strip tag_href) of
              None \<Rightarrow> True
            | Some joined \<Rightarrow> urlparse env (rstrip_slash (before_hash joined)) = None)
          hrefs"
proof (induction hrefs arbitrary: acc)
  case Nil
  show ?case by simp
next
  case (Cons h hs)
  show ?case
  proof (cases "urljoin env page_url (strip h)")
    case None
    then show ?thesis by simp
  next
    case j: (Some j)
    show ?thesis
    proof (cases "urlparse env (rstrip_slash (before_hash j))")
      case None
      then have "is_internal env s (rstrip_slash (before_hash j)) = Inl ValueError"
        by (simp add: is_internal_def)
      with j None show ?thesis by (simp add: Let_def)
    next
      case (Some p)
      then obtain b where "is_internal env s (rstrip_slash (before_hash j)) = Inr b"
        by (simp add: is_internal_def)
      with j Some Cons.IH [of acc]
        Cons.IH [of "set_add (rstrip_slash (before_hash j)) acc"]
      show ?thesis by (simp add: Let_def)
    qed
  qed
qed

lemma parse_links_raises:
  "(\<exists>e. parse_links env s html page_url = Inl e) \<longleftrightarrow> library_raises env page_url html"
  using parse_links_loop_raises [of env s page_url _ "[]"]
  by (simp add: parse_links_def library_raises_def split: option.splits)

lemma handle_url_resume_abort:
  assumes "handle_url_resume env s task = Inl (e, s')"
  shows "fst task \<in> set (result_urls s')
    \<and> (\<exists>html. fetch env (fst task) = Some html \<and> library_raises env (fst task) html)"
proof -
  obtain url depth where task: "task = (url, depth)" by (cases task)
  from assms obtain html where html: "fetch env url = Some html"
    by (auto simp: handle_url_resume_def task split: option.splits)
  with assms have "parse_links env (s\<lparr>result_urls := result_urls s @ [url]\<rparr>) html url = Inl e"
    and "s' = s\<lparr>result_urls := result_urls s @ [url]\<rparr>"
    by (auto simp: handle_url_resume_def task Let_def split: if_splits sum.splits)
  with html parse_links_raises [of env _ html url] show ?thesis
    by (auto simp: task)
qed

lemma run_tasks_abort:
  "run_tasks env s tasks = Inl (e, s') \<Longrightarrow>
     \<exists>u\<in>set (result_urls s'). \<exists>html. fetch env u = Some html \<and> library_raises env u html"
proof (induction tasks arbitrary: s)
  case Nil
  then show ?case by simp
next
  case (Cons task tasks)
  show ?case
  proof (cases "handle_url_resume env s task")
    case (Inl x)
    with Cons.prems have "handle_url_resume env s task = Inl (e, s')" by simp
    from handle_url_resume_abort [OF this] show ?thesis by blast
  next
    case (Inr s1)
    with Cons.prems have "run_tasks env s1 tasks = Inl (e, s')" by simp
    then show ?thesis by (rule Cons.IH)
  qed
qed

lemma crawl_round_abort:
  "crawl_round env s = Inl (e, s') \<Longrightarrow>
     \<exists>u\<in>set (result_urls s'). \<exists>html. fetch env u = Some html \<and> library_raises env u html"
  using run_tasks_abort [of env _ _ e s']
  by (auto simp: crawl_round_def gather_def Let_def split: if_splits)

lemma crawl_loop_abort:
  "crawl_loop env fuel s = Some (Inl (e, s')) \<Longrightarrow>
     \<exists>u\<in>set (result_urls s'). \<exists>html. fetch env u = Some html \<and> library_raises env u html"
proof (induction fuel arbitrary: s)
  case 0
  then show ?case by (simp split: if_splits)
next
  case (Suc fuel)
  from Suc.prems have ne: "urls_to_visit s \<noteq> []" by (auto split: if_splits)
  show ?case
  proof (cases "crawl_round env s")
    case (Inl x)
    with Suc.prems ne have "crawl_round env s = Inl (e, s')" by simp
    then show ?thesis by (rule crawl_round_abort)
  next
    case (Inr s1)
    with Suc.prems ne have "crawl_loop env fuel s1 = Some (Inl (e, s'))" by simp
    then show ?thesis by (rule Suc.IH)
  qed
qed

lemma crawl_abort:
  assumes "crawl env fuel c = Some (Inl (e, s'))"
  shows "urljoin env (base_url c) ''/sitemap.xml'' = None
    \<or> (\<exists>u\<in>set (result_urls s'). \<exists>html. fetch env u = Some html \<and> library_raises env u html)"
proof (cases "seed env c")
  case (Inl x)
  then have "urljoin env (base_url c) ''/sitemap.xml'' = None"
    by (auto simp: seed_def Let_def split: option.splits prod.splits if_splits)
  then show ?thesis ..
next
  case (Inr s0)
  with assms have "crawl_loop env fuel s0 = Some (Inl (e, s'))" by (simp add: crawl_def)
  from crawl_loop_abort [OF this] show ?thesis ..
qed

lemma crawl_terminates:
  assumes "init env url mt md = Inr c" and "1 \<le> mt"
  shows "\<exists>fuel r. crawl env fuel c = Some r"
proof (cases "seed env c")
  case (Inl e)
  then show ?thesis by (simp add: crawl_def)
next
  case (Inr s0)
  from seed_state(3) [OF assms(1) Inr] assms(2) have "1 \<le> max_tasks s0" by simp
  from crawl_loop_terminates [OF this, of env] Inr show ?thesis
    by (simp add: crawl_def)
qed


lemma site_a_pages:
  "\<not> library_raises site_a ''https://example.test/'' home_html"
  "\<not> library_raises site_a ''https://example.test/a'' a_html"
  "\<not> library_raises site_a ''https://example.test/b'' b_html"
  "\<not> library_raises site_a ''https://example.test/c'' c_html"
  by code_simp+

lemma site_a_no_raise:
  "\<not> (\<exists>u html. fetch site_a u = Some html \<and> library_raises site_a u html)"
proof
  assume "\<exists>u html. fetch site_a u = Some html \<and> library_raises site_a u html"
  then obtain u html where f: "fetch site_a u = Some html"
    and r: "library_raises site_a u html" by blast
  from f obtain response where g: "http_get site_a u = Some response"
    "resp_status response = 200" "resp_text response = Some html"
    by (auto simp: fetch_def fetch_try_def split: option.splits if_splits sum.splits)
  have "http_get site_a = map_of
       [(''https://example.test/sitemap.xml'', Response 404 (Some [])),
        (''https://example.test/'', Response 200 (Some home_html)),
        (''https://example.test/a'', Response 200 (Some a_html)),
        (''https://example.test/b'', Response 200 (Some b_html)),
        (''https://example.test/c'', Response 200 (Some c_html))]"
    by (simp add: site_a_def)
  with g(1) have "(u, response) \<in> set
       [(''https://example.test/sitemap.xml'', Response 404 (Some [])),
        (''https://example.test/'', Response 200 (Some home_html)),
        (''https://example.test/a'', Response 200 (Some a_html)),
        (''https://example.test/b'', Response 200 (Some b_html)),
        (''https://example.test/c'', Response 200 (Some c_html))]"
    by (metis map_of_SomeD)
  with g(2,3) have "(u = ''https://example.test/'' \<and> html = home_html)
      \<or> (u = ''https://example.test/a'' \<and> html = a_html)
      \<or> (u = ''https://example.test/b'' \<and> html = b_html)
      \<or> (u = ''https://example.test/c'' \<and> html = c_html)"
    by auto
  with r site_a_pages show False by blast
qed



text \<open>
  What the amended claim leaves out: \<open>parse_links\<close> has no handler, so a link that
  \<open>urljoin\<close> rejects ends the crawl with \<open>ValueError\<close>; and with \<open>max_tasks = 0\<close> no round
  takes an entry from the queue, and the loop never ends.
\<close>

lemma malformed_link_aborts:
  "run site_bad_link 1 ''https://example.test'' 500 3 = Some (Inl ValueError)
   \<and> fetch site_bad_link ''https://example.test/'' = Some bad_html
   \<and> library_raises site_bad_link ''https://example.test/'' bad_html"
  by code_simp

lemma no_tasks_never_ends:
  "run offline fuel ''foo'' 0 3 = None"
proof -
  have "crawl_loop offline fuel
      \<lparr>base_url = ''foo/'', base_domain = [], max_tasks = 0, max_depth = 3,
       urls_to_visit = [(''foo/'', 0)], visited_urls = {}, result_urls = [],
       robots_loaded = False, sitemap_loaded = False\<rparr> = None"
    by (induction fuel)
       (simp_all add: crawl_round_def create_tasks_def batch_size_def dequeue_batch_def)
  moreover have "init offline ''foo'' 0 3
     = Inr \<lparr>base_url = ''foo/'', base_domain = [], max_tasks = 0, max_depth = 3,
            urls_to_visit = [], visited_urls = {}, result_urls = [],
            robots_loaded = False, sitemap_loaded = False\<rparr>"
    by code_simp
  moreover have "seed offline \<lparr>base_url = ''foo/'', base_domain = [], max_tasks = 0, max_depth = 3,
            urls_to_visit = [], visited_urls = {}, result_urls = [],
            robots_loaded = False, sitemap_loaded = False\<rparr>
      = Inr \<lparr>base_url = ''foo/'', base_domain = [], max_tasks = 0, max_depth = 3,
       urls_to_visit = [(''foo/'', 0)], visited_urls = {}, result_urls = [],
       robots_loaded = False, sitemap_loaded = False\<rparr>"
    by code_simp
  ultimately show ?thesis by (simp add: run_def crawl_def)
qed

end
